theory Spec2Isabelle
  imports Main "HOL-Library.Sublist"
begin

section \<open>Data model: Graph payloads, responses, effects\<close>

text \<open>
  Both programs read every Graph payload as a Python dict through \<open>.get(key, default)\<close>.
  An \<open>entity\<close> is such a dict restricted to the keys the programs read; an absent key is
  \<open>None\<close>. The key \<open>folder\<close> is only tested for presence (\<open>'folder' in item\<close>), and
  \<open>type_tag\<close> is the key \<open>_type\<close> that the enumerator adds to a drive.
\<close>

type_synonym quota = "(string \<times> int) list"

record entity =
  id_key :: "string option"
  name :: "string option"
  displayName :: "string option"
  webUrl :: "string option"
  folder :: bool
  size_key :: "int option"
  createdDateTime :: "string option"
  lastModifiedDateTime :: "string option"
  quota_key :: "quota option"
  type_tag :: "string option"

text \<open>
  A decoded response body: the dict itself read as an entity (\<open>obj\<close>), its key
  \<open>value\<close> and its key \<open>@odata.nextLink\<close>.
\<close>

record body =
  obj :: entity
  value_key :: "entity list option"
  nextLink :: "string option"

text \<open>
  \<open>session.get(url)\<close> / \<open>requests.get(url)\<close> either raises (transport failure, or a
  payload that cannot be decoded, which raises inside the same \<open>try\<close> block) or gives a
  status code and a body.
\<close>

datatype response = Raises | Response int body

type_synonym session = "string \<Rightarrow> response"

text \<open>Python truthiness of a URL or file name: \<open>None\<close> and the empty string are falsy.\<close>

fun truthy :: "string option \<Rightarrow> bool" where
  "truthy None = False"
| "truthy (Some s) = (s \<noteq> [])"

text \<open>\<open>data.get('value', [])\<close>\<close>

definition batch_of :: "body \<Rightarrow> entity list" where
  "batch_of data = (case value_key data of None \<Rightarrow> [] | Some v \<Rightarrow> v)"

text \<open>An f-string prints an absent id as \<open>None\<close>.\<close>

definition fmt :: "string option \<Rightarrow> string" where
  "fmt x = (case x of None \<Rightarrow> ''None'' | Some s \<Rightarrow> s)"

text \<open>One row of the file table (the wall-clock \<open>timestamp\<close> column is left out).\<close>

record archivo_row =
  r_drive_id :: string
  r_ruta :: string
  r_nombre :: string
  r_tipo :: string
  r_tamano_bytes :: int
  r_creado :: string
  r_modificado :: string
  r_url :: string
  r_profundidad :: int

text \<open>
  The effects of a run, in the order they happen: a GET request, a row appended to a
  file, the POST to the token endpoint, or a file opened for writing (created or
  truncated) and given its header row. \<open>Call p\<close> and \<open>Return\<close> mark the entry (past the depth guard, with the depth
  argument \<open>p\<close>) and the exit of a frame of \<open>listar_archivos_recursivo\<close>, so that the log
  also records the call stack.
\<close>

datatype event =
    Get string | Append string archivo_row | Call int | Return
  | Post string | Create string "string list"

section \<open>Page fetching\<close>

text \<open>
  The \<open>while url:\<close> loop of \<open>listar_todos_los_usuarios\<close>. A raised exception and a
  status other than 200 both \<open>break\<close>. The loop follows cursors as long as the server
  hands them out, so it is a partial function: \<open>None\<close> is a run that never returns.
  Console output and the page counter that only feeds it are left out, here and below.
\<close>

partial_function (option) usuarios_loop ::
  "session \<Rightarrow> string option \<Rightarrow> entity list \<Rightarrow> event list \<Rightarrow> (entity list \<times> event list) option"
where
  "usuarios_loop get url usuarios tr =
     (if truthy url then
        (case get (the url) of
           Raises \<Rightarrow> Some (usuarios, tr @ [Get (the url)])
         | Response status_code data \<Rightarrow>
             if status_code = 200 then
               usuarios_loop get (nextLink data) (usuarios @ batch_of data) (tr @ [Get (the url)])
             else Some (usuarios, tr @ [Get (the url)]))
      else Some (usuarios, tr))"

definition users_url :: string where
  "users_url = ''https://graph.microsoft.com/v1.0/users?$top=200''"

definition listar_todos_los_usuarios :: "session \<Rightarrow> event list \<Rightarrow> (entity list \<times> event list) option" where
  "listar_todos_los_usuarios get tr = usuarios_loop get (Some users_url) [] tr"

text \<open>
  \<open>list_files\<close> of the explorer: the same loop, but the \<open>try\<close> encloses the whole
  function, so an exception leaves the loop and the handler returns the empty list.
\<close>

datatype error = Exception

partial_function (option) files_loop ::
  "session \<Rightarrow> string option \<Rightarrow> entity list \<Rightarrow> event list \<Rightarrow> ((error + entity list) \<times> event list) option"
where
  "files_loop get url items tr =
     (if truthy url then
        (case get (the url) of
           Raises \<Rightarrow> Some (Inl Exception, tr @ [Get (the url)])
         | Response status_code data \<Rightarrow>
             if status_code = 200 then
               files_loop get (nextLink data) (items @ batch_of data) (tr @ [Get (the url)])
             else Some (Inr items, tr @ [Get (the url)]))
      else Some (Inr items, tr))"

definition children_url :: "string \<Rightarrow> string option \<Rightarrow> string" where
  "children_url drive_id item_id =
     (case item_id of
        None \<Rightarrow> ''https://graph.microsoft.com/v1.0/drives/'' @ drive_id @ ''/root/children''
      | Some i \<Rightarrow> ''https://graph.microsoft.com/v1.0/drives/'' @ drive_id @ ''/items/'' @ i @ ''/children'')
     @ ''?$top=200''"

definition list_files ::
  "string option \<Rightarrow> session \<Rightarrow> string option \<Rightarrow> event list \<Rightarrow> (entity list \<times> event list) option" where
  "list_files drive_id get item_id tr =
     (if \<not> truthy drive_id then Some ([], tr)
      else
        (case files_loop get (Some (children_url (the drive_id) item_id)) [] tr of
           None \<Rightarrow> None
         | Some (Inl e, tr') \<Rightarrow> Some ([], tr')
         | Some (Inr items, tr') \<Rightarrow> Some (items, tr')))"

text \<open>
  What the server presents from \<open>url\<close> on: \<open>served get url ps\<close> says that the pages
  \<open>ps\<close> (batch and cursor of each) are answered with status 200 one after the other,
  each carrying a non-empty cursor to the next request. \<open>last_url url ps\<close> is the request
  that follows them.
\<close>

fun served :: "session \<Rightarrow> string \<Rightarrow> (entity list \<times> string) list \<Rightarrow> bool" where
  "served get url [] = True"
| "served get url ((b, next_url) # ps) =
     (case get url of Raises \<Rightarrow> False
      | Response st data \<Rightarrow>
          st = 200 \<and> batch_of data = b \<and> nextLink data = Some next_url \<and> next_url \<noteq> []
          \<and> served get next_url ps)"

definition last_url :: "string \<Rightarrow> (entity list \<times> string) list \<Rightarrow> string" where
  "last_url url ps = last (url # map snd ps)"

text \<open>The last page of a collection: status 200, its batch, and no cursor.\<close>

definition final_page :: "session \<Rightarrow> string \<Rightarrow> entity list \<Rightarrow> bool" where
  "final_page get url final =
     (case get url of Raises \<Rightarrow> False
      | Response st data \<Rightarrow> st = 200 \<and> batch_of data = final \<and> \<not> truthy (nextLink data))"

text \<open>A page request that fails with a status other than 200.\<close>

definition bad_status :: "session \<Rightarrow> string \<Rightarrow> bool" where
  "bad_status get url = (case get url of Raises \<Rightarrow> False | Response st data \<Rightarrow> st \<noteq> 200)"

section \<open>Depth-bounded traversal\<close>

text \<open>\<open>ruta.rstrip('/')\<close>\<close>

definition rstrip_slash :: "string \<Rightarrow> string" where
  "rstrip_slash s = rev (dropWhile (\<lambda>c. c = CHR ''/'') (rev s))"

text \<open>\<open>d.get(key, default)\<close>\<close>

definition get_default :: "'a option \<Rightarrow> 'a \<Rightarrow> 'a" where
  "get_default x d = (case x of None \<Rightarrow> d | Some v \<Rightarrow> v)"

text \<open>The row built for one item (\<open>archivo_row\<close> in the source).\<close>

definition archivo_row_of :: "string \<Rightarrow> string \<Rightarrow> int \<Rightarrow> entity \<Rightarrow> archivo_row" where
  "archivo_row_of drive_id ruta profundidad item =
     (let nombre = get_default (name item) ''N/A'';
          ruta_completa = rstrip_slash ruta @ ''/'' @ nombre
      in \<lparr>r_drive_id = drive_id, r_ruta = ruta_completa, r_nombre = nombre,
          r_tipo = (if folder item then ''carpeta'' else ''archivo''),
          r_tamano_bytes = get_default (size_key item) 0,
          r_creado = get_default (createdDateTime item) [],
          r_modificado = get_default (lastModifiedDateTime item) [],
          r_url = get_default (webUrl item) [],
          r_profundidad = profundidad\<rparr>)"

text \<open>
  The page loop inside \<open>listar_archivos_recursivo\<close>. It sits in the function's outer
  \<open>try\<close>: a raised exception abandons the whole call, a status other than 200 leaves the
  loop with the items collected so far.
\<close>

partial_function (option) items_loop ::
  "session \<Rightarrow> string option \<Rightarrow> entity list \<Rightarrow> event list \<Rightarrow> ((error + entity list) \<times> event list) option"
where
  "items_loop get url items tr =
     (if truthy url then
        (case get (the url) of
           Raises \<Rightarrow> Some (Inl Exception, tr @ [Get (the url)])
         | Response status_code data \<Rightarrow>
             if status_code = 200 then
               items_loop get (nextLink data) (items @ batch_of data) (tr @ [Get (the url)])
             else Some (Inr items, tr @ [Get (the url)]))
      else Some (Inr items, tr))"

text \<open>
  \<open>listar_archivos_recursivo\<close> and its \<open>for item in items\<close> loop (\<open>procesar_items\<close>). The
  log is threaded through; \<open>None\<close> is a run whose page loop never returns. Payloads are
  well-formed entities and appending to the file succeeds, so the per-item handler has
  nothing to catch.
\<close>

function listar_archivos_recursivo ::
  "int \<Rightarrow> session \<Rightarrow> string \<Rightarrow> string option \<Rightarrow> string \<Rightarrow> int \<Rightarrow> string option
     \<Rightarrow> event list \<Rightarrow> event list option"
and procesar_items ::
  "int \<Rightarrow> session \<Rightarrow> string \<Rightarrow> string \<Rightarrow> int \<Rightarrow> string option \<Rightarrow> entity list
     \<Rightarrow> event list \<Rightarrow> event list option"
where
  "listar_archivos_recursivo max_depth get drive_id item_id ruta profundidad archivos_csv tr =
     (if profundidad > max_depth then Some tr
      else
        (case items_loop get (Some (children_url drive_id item_id)) [] (tr @ [Call profundidad]) of
           None \<Rightarrow> None
         | Some (Inl e, tr') \<Rightarrow> Some (tr' @ [Return])
         | Some (Inr items, tr') \<Rightarrow>
             (case procesar_items max_depth get drive_id ruta profundidad archivos_csv items tr' of
                None \<Rightarrow> None
              | Some tr'' \<Rightarrow> Some (tr'' @ [Return]))))"
| "procesar_items max_depth get drive_id ruta profundidad archivos_csv [] tr = Some tr"
| "procesar_items max_depth get drive_id ruta profundidad archivos_csv (item # items) tr =
     (let row = archivo_row_of drive_id ruta profundidad item;
          tr1 = (if truthy archivos_csv then tr @ [Append (the archivos_csv) row] else tr)
      in if folder item \<and> profundidad < max_depth then
           (case listar_archivos_recursivo max_depth get drive_id (id_key item) (r_ruta row)
                   (profundidad + 1) archivos_csv tr1 of
              None \<Rightarrow> None
            | Some tr2 \<Rightarrow>
                procesar_items max_depth get drive_id ruta profundidad archivos_csv items tr2)
         else procesar_items max_depth get drive_id ruta profundidad archivos_csv items tr1)"
  by pat_completeness auto
termination
  apply (relation "measures [
      (\<lambda>x. case x of Inl (D, g, d, i, r, p, c, t) \<Rightarrow> 2 * nat (D + 1 - p) + 1
                     | Inr (D, g, d, r, p, c, its, t) \<Rightarrow> 2 * nat (D + 1 - p)),
      (\<lambda>x. case x of Inl _ \<Rightarrow> 0 | Inr (D, g, d, r, p, c, its, t) \<Rightarrow> length its)]")
  apply auto
  done

subsection \<open>The call tree behind a log\<close>

text \<open>
  A frame of \<open>listar_archivos_recursivo\<close> that passed the depth guard: its depth argument,
  the node whose children it lists (\<open>None\<close> is the root), the pages of the listing that
  answered 200 with a cursor (batch and cursor of each), and one visit per child it
  processed, in order. A visit is the child, the row built for it and, when the child was
  recursed into, the frame of that recursive call.
\<close>

datatype frame = Frame int "string option" "(entity list \<times> string) list" "visit list"
and visit = Visit (v_item: entity) (v_row: archivo_row) (v_sub: "frame option")

text \<open>The \<open>if archivos_csv:\<close> block: the row is appended only to a truthy file name.\<close>

definition emit :: "string option \<Rightarrow> archivo_row \<Rightarrow> event list" where
  "emit archivos_csv row = (if truthy archivos_csv then [Append (the archivos_csv) row] else [])"

text \<open>
  The log of a call tree in pre-order: a frame makes the requests of its listing first,
  then handles its children one after the other; a child's row comes first, the frame of
  its own subtree right after it.
\<close>

fun events_of_frame :: "string \<Rightarrow> string option \<Rightarrow> frame \<Rightarrow> event list"
and events_of_visit :: "string \<Rightarrow> string option \<Rightarrow> visit \<Rightarrow> event list" where
  "events_of_frame d c (Frame p i ps vs) =
     Call p # map Get (children_url d i # map snd ps)
     @ concat (map (events_of_visit d c) vs) @ [Return]"
| "events_of_visit d c (Visit item row None) = emit c row"
| "events_of_visit d c (Visit item row (Some fr)) = emit c row @ events_of_frame d c fr"

text \<open>
  The children a frame processes, given the pages collected so far and the answer to its
  last request: none when the request raised, the collected items when it answered a
  status other than 200, and the collected items with the last batch when it answered 200
  without a cursor.
\<close>

definition listing_result :: "session \<Rightarrow> string \<Rightarrow> entity list \<Rightarrow> entity list \<Rightarrow> bool" where
  "listing_result get url collected items =
     (case get url of
        Raises \<Rightarrow> items = []
      | Response st data \<Rightarrow>
          if st = 200 then \<not> truthy (nextLink data) \<and> items = collected @ batch_of data
          else items = collected)"

text \<open>
  The call tree of a traversal with maximum depth \<open>D\<close> on drive \<open>d\<close>. A frame at depth \<open>p\<close>
  for the node \<open>item_id\<close> with path \<open>ruta\<close> has \<open>p \<le> D\<close>; its pages are what the server
  serves from the children URL of that node, and its visits are exactly the children that
  listing delivers, in order. The row of a visit is the row of its child at depth \<open>p\<close>
  under \<open>ruta\<close>. A child has a frame of its own exactly when it is a folder and \<open>p < D\<close>,
  and that frame is the frame of this very child: one level deeper, for the child's id,
  under the child's path.
\<close>

fun wf_frame :: "int \<Rightarrow> session \<Rightarrow> string \<Rightarrow> int \<Rightarrow> string option \<Rightarrow> string \<Rightarrow> frame \<Rightarrow> bool"
and wf_visit :: "int \<Rightarrow> session \<Rightarrow> string \<Rightarrow> int \<Rightarrow> string \<Rightarrow> visit \<Rightarrow> bool" where
  "wf_frame D get d p item_id ruta (Frame q i ps vs) =
     (q = p \<and> i = item_id \<and> p \<le> D
      \<and> served get (children_url d i) ps
      \<and> listing_result get (last_url (children_url d i) ps) (concat (map fst ps)) (map v_item vs)
      \<and> (\<forall>v \<in> set vs. wf_visit D get d p ruta v))"
| "wf_visit D get d p ruta (Visit item row None) =
     (row = archivo_row_of d ruta p item \<and> \<not> (folder item \<and> p < D))"
| "wf_visit D get d p ruta (Visit item row (Some fr)) =
     (row = archivo_row_of d ruta p item \<and> folder item \<and> p < D
      \<and> wf_frame D get d (p + 1) (id_key item) (r_ruta row) fr)"

text \<open>
  A request at which a listing ends: it raises, answers a status other than 200, or
  answers 200 without a cursor.
\<close>

definition ends :: "session \<Rightarrow> string \<Rightarrow> bool" where
  "ends get url =
     (case get url of
        Raises \<Rightarrow> True
      | Response st data \<Rightarrow> st \<noteq> 200 \<or> \<not> truthy (nextLink data))"

text \<open>
  The call stack along a log, counted in frames that passed the depth guard:
  \<open>stack_after c es\<close> is the number of open frames after \<open>es\<close> when there were \<open>c\<close> before,
  \<open>stack_peak c es\<close> the largest number reached on the way.
\<close>

fun stack_after :: "nat \<Rightarrow> event list \<Rightarrow> nat" where
  "stack_after c [] = c"
| "stack_after c (Call p # es) = stack_after (Suc c) es"
| "stack_after c (Return # es) = stack_after (c - 1) es"
| "stack_after c (e # es) = stack_after c es"

fun stack_peak :: "nat \<Rightarrow> event list \<Rightarrow> nat" where
  "stack_peak c [] = c"
| "stack_peak c (Call p # es) = max c (stack_peak (Suc c) es)"
| "stack_peak c (Return # es) = max c (stack_peak (c - 1) es)"
| "stack_peak c (e # es) = stack_peak c es"

section \<open>The orchestrator\<close>

text \<open>
  The token endpoint raises, or answers a status with the keys \<open>access_token\<close> and
  \<open>expires_in\<close> of its body (absent keys are \<open>None\<close>; reading one raises \<open>KeyError\<close>
  inside the \<open>try\<close> of \<open>get_access_token\<close>).
\<close>

datatype token_response = Token_raises | Token_response int "string option" "int option"

record enumerator =
  access_token :: "string option"
  token_expires :: "int option"

definition token_url :: "string \<Rightarrow> string" where
  "token_url tenant_id = ''https://login.microsoftonline.com/'' @ tenant_id @ ''/oauth2/v2.0/token''"

definition get_access_token ::
  "(string \<Rightarrow> token_response) \<Rightarrow> string \<Rightarrow> enumerator \<Rightarrow> event list
     \<Rightarrow> bool \<times> enumerator \<times> event list" where
  "get_access_token post tenant_id self tr =
     (let url = token_url tenant_id in
      case post url of
        Token_raises \<Rightarrow> (False, self, tr @ [Post url])
      | Token_response status_code tok expires \<Rightarrow>
          if status_code = 200 then
            (case tok of
               None \<Rightarrow> (False, self, tr @ [Post url])
             | Some t \<Rightarrow>
                 (case expires of
                    None \<Rightarrow> (False, self\<lparr>access_token := Some t\<rparr>, tr @ [Post url])
                  | Some e \<Rightarrow>
                      (True, self\<lparr>access_token := Some t, token_expires := Some e\<rparr>,
                       tr @ [Post url])))
          else (False, self, tr @ [Post url]))"

text \<open>
  \<open>listar_todos_los_sites\<close> runs the loop of \<open>listar_todos_los_usuarios\<close>, statement by
  statement, on the sites endpoint.
\<close>

definition sites_url :: string where
  "sites_url = ''https://graph.microsoft.com/v1.0/sites?$top=200''"

definition listar_todos_los_sites :: "session \<Rightarrow> event list \<Rightarrow> (entity list \<times> event list) option" where
  "listar_todos_los_sites get tr = usuarios_loop get (Some sites_url) [] tr"

definition usuarios_headers :: "string list" where
  "usuarios_headers = [''user_id'', ''nombre'', ''email'', ''drive_id'', ''drive_name'', ''drive_type'',
     ''drive_url'', ''quota_usado_gb'', ''quota_total_gb'', ''porcentaje_uso'', ''timestamp'']"

definition sites_headers :: "string list" where
  "sites_headers = [''tipo'', ''nombre'', ''email'', ''url'', ''drive_id'', ''drive_name'', ''drive_type'',
     ''quota_usado_gb'', ''quota_total_gb'', ''porcentaje_uso'', ''timestamp'']"

definition archivos_headers :: "string list" where
  "archivos_headers = [''drive_id'', ''ruta'', ''nombre'', ''tipo'',
     ''tama'' @ [CHR 0xC3, CHR 0xB1] @ ''o_bytes'', ''creado'', ''modificado'', ''url'',
     ''profundidad'', ''timestamp'']"

text \<open>
  \<open>generar_reporte_completo\<close>: the three files are created with their headers, then the
  token is requested; a failure returns. The two thread pools that follow the
  enumeration, and the summary, are the parameter \<open>despachar\<close>. \<open>main\<close> is the script's
  entry point: it falls off its end, so the process exits with status 0.
\<close>

definition generar_reporte_completo ::
  "(string \<Rightarrow> token_response) \<Rightarrow> session
     \<Rightarrow> (entity list \<Rightarrow> entity list \<Rightarrow> string \<Rightarrow> string \<Rightarrow> string \<Rightarrow> event list \<Rightarrow> event list option)
     \<Rightarrow> string \<Rightarrow> string \<Rightarrow> enumerator \<Rightarrow> event list option" where
  "generar_reporte_completo post get despachar tenant_id timestamp self =
     (let usuarios_csv = ''usuarios_'' @ timestamp @ ''.csv'';
          sites_csv = ''sites_'' @ timestamp @ ''.csv'';
          archivos_csv = ''archivos_'' @ timestamp @ ''.csv'';
          tr = [Create usuarios_csv usuarios_headers, Create sites_csv sites_headers,
                Create archivos_csv archivos_headers]
      in case get_access_token post tenant_id self tr of
           (ok, self, tr) \<Rightarrow>
             if \<not> ok then Some tr
             else
               (case listar_todos_los_usuarios get tr of
                  None \<Rightarrow> None
                | Some (usuarios, tr) \<Rightarrow>
                    (case listar_todos_los_sites get tr of
                       None \<Rightarrow> None
                     | Some (sites, tr) \<Rightarrow>
                         despachar usuarios sites usuarios_csv sites_csv archivos_csv tr)))"

definition main ::
  "(string \<Rightarrow> token_response) \<Rightarrow> session
     \<Rightarrow> (entity list \<Rightarrow> entity list \<Rightarrow> string \<Rightarrow> string \<Rightarrow> string \<Rightarrow> event list \<Rightarrow> event list option)
     \<Rightarrow> string \<Rightarrow> string \<Rightarrow> (int \<times> event list) option" where
  "main post get despachar tenant_id timestamp =
     (case generar_reporte_completo post get despachar tenant_id timestamp
             \<lparr>access_token = None, token_expires = None\<rparr> of
        None \<Rightarrow> None
      | Some tr \<Rightarrow> Some (0, tr))"

section \<open>Resolving the drives of a principal\<close>

text \<open>
  \<open>obtener_todos_los_drives_usuario\<close> of the enumerator. \<open>agregar_shared\<close> is its
  \<open>for drive in user_drives\<close> loop: a drive whose id is not yet among the collected ones is
  tagged \<open>shared\<close> and appended.
\<close>

fun agregar_shared :: "entity list \<Rightarrow> entity list \<Rightarrow> entity list" where
  "agregar_shared drives [] = drives"
| "agregar_shared drives (drive # user_drives) =
     (if id_key drive \<notin> set (map id_key drives)
      then agregar_shared (drives @ [drive\<lparr>type_tag := Some ''shared''\<rparr>]) user_drives
      else agregar_shared drives user_drives)"

definition user_drive_url :: "string \<Rightarrow> string" where
  "user_drive_url user_id = ''https://graph.microsoft.com/v1.0/users/'' @ user_id @ ''/drive''"

definition user_drives_url :: "string \<Rightarrow> string" where
  "user_drives_url user_id = ''https://graph.microsoft.com/v1.0/users/'' @ user_id @ ''/drives''"

definition obtener_todos_los_drives_usuario ::
  "session \<Rightarrow> string option \<Rightarrow> event list \<Rightarrow> entity list \<times> event list" where
  "obtener_todos_los_drives_usuario get user_id tr =
     (let url = user_drive_url (fmt user_id);
          drives = (case get url of
                      Raises \<Rightarrow> []
                    | Response status_code drive \<Rightarrow>
                        if status_code = 200 then [(obj drive)\<lparr>type_tag := Some ''personal''\<rparr>]
                        else []);
          url2 = user_drives_url (fmt user_id) @ ''?$top=200'';
          drives = (case get url2 of
                      Raises \<Rightarrow> drives
                    | Response status_code data \<Rightarrow>
                        if status_code = 200 then agregar_shared drives (batch_of data)
                        else drives)
      in (drives, tr @ [Get url, Get url2]))"

section \<open>Resolving the drives behind a URL\<close>

text \<open>
  \<open>s.split(sep)\<close>: the pieces between the occurrences of \<open>sep\<close>, found from the left
  without overlap. Python rejects an empty separator; the programs only split at constants.
\<close>

function split_str :: "string \<Rightarrow> string \<Rightarrow> string list" where
  "split_str sep s =
     (if sep = [] then [s]
      else if s = [] then [[]]
      else if prefix sep s then [] # split_str sep (drop (length sep) s)
      else (case split_str sep (tl s) of
              [] \<Rightarrow> [[hd s]]
            | p # ps \<Rightarrow> (hd s # p) # ps))"
  by pat_completeness auto
termination
  by (relation "measure (\<lambda>(sep, s). length s)") auto

declare split_str.simps [simp del]

text \<open>\<open>sep.join(ps)\<close>\<close>

fun join :: "string \<Rightarrow> string list \<Rightarrow> string" where
  "join sep [] = []"
| "join sep [p] = p"
| "join sep (p # ps) = p @ sep @ join sep ps"

text \<open>
  The first lines of \<open>get_drives_from_url\<close>: the owner email encoded in the URL, or one
  of the two early \<open>return False\<close>.
\<close>

datatype url_error = Sin_personal | Formato_invalido

definition email_of_url :: "string \<Rightarrow> url_error + string" where
  "email_of_url onedrive_url =
     (let onedrive_url = rstrip_slash onedrive_url in
      if \<not> sublist ''/personal/'' onedrive_url then Inl Sin_personal
      else
        let personal_part = last (split_str ''/personal/'' onedrive_url);
            parts = split_str ''_'' personal_part
        in if length parts < 3 then Inl Formato_invalido
           else
             let tld = last parts;
                 domain = parts ! (length parts - 2);
                 name_parts = take (length parts - 2) parts
             in Inr (join ''.'' name_parts @ ''@'' @ domain @ ''.'' @ tld))"

text \<open>
  The explorer keeps the selected drive, the drives it found, and (here) the log of its
  requests. An entry of \<open>available_drives\<close> is the dict the explorer builds for a drive.
\<close>

record adrive =
  ad_id :: "string option"
  ad_name :: string
  ad_type :: string
  ad_owner :: string
  ad_quota :: quota

record explorer =
  e_drive_id :: "string option"
  e_available_drives :: "adrive list"
  e_log :: "event list"

definition requested :: "string \<Rightarrow> explorer \<Rightarrow> explorer" where
  "requested url s = s\<lparr>e_log := e_log s @ [Get url]\<rparr>"

text \<open>
  \<open>choice.strip()\<close>, \<open>choice.isdigit()\<close> and \<open>int(choice)\<close> on ASCII input. The ASCII
  characters that \<open>str.isspace\<close> accepts are the space, 0x09 to 0x0D and 0x1C to 0x1F.
\<close>

definition is_space :: "char \<Rightarrow> bool" where
  "is_space c = (c \<in> set [CHR '' '', CHR 0x09, CHR 0x0A, CHR 0x0B, CHR 0x0C, CHR 0x0D,
                            CHR 0x1C, CHR 0x1D, CHR 0x1E, CHR 0x1F])"

definition strip :: "string \<Rightarrow> string" where
  "strip s = dropWhile is_space (rev (dropWhile is_space (rev s)))"

definition isdigit :: "string \<Rightarrow> bool" where
  "isdigit s = (s \<noteq> [] \<and> list_all (\<lambda>c. c \<in> set ''0123456789'') s)"

definition int_of_digits :: "string \<Rightarrow> nat" where
  "int_of_digits s = foldl (\<lambda>n c. 10 * n + (of_char c - 48)) 0 s"

text \<open>
  \<open>select_drive\<close>. The menu prints \<open>drive['id'][:40]\<close> for every entry, which raises when
  an id is absent. \<open>entrada\<close> is the line read by \<open>input()\<close>, \<open>None\<close> when the user
  interrupts. \<open>int(choice)\<close> is only evaluated on a digit string, and raises \<open>ValueError\<close>
  when the string has more than 4300 digits (the interpreter's limit on integer
  conversion); the function catches \<open>KeyboardInterrupt\<close> only.
\<close>

definition max_str_digits :: nat where
  "max_str_digits = 4300"

definition select_drive :: "string option \<Rightarrow> explorer \<Rightarrow> (error + bool) \<times> explorer" where
  "select_drive entrada s =
     (if \<exists>drive \<in> set (e_available_drives s). ad_id drive = None then (Inl Exception, s)
      else
        (case entrada of
           None \<Rightarrow> (Inr False, s)
         | Some line \<Rightarrow>
             let choice = strip line;
                 choice = (if choice = [] then ''1'' else choice)
             in if isdigit choice then
                  (if length choice > max_str_digits then (Inl Exception, s)
                   else if 1 \<le> int_of_digits choice
                           \<and> int_of_digits choice \<le> length (e_available_drives s)
                     then (Inr True,
                           s\<lparr>e_drive_id := ad_id (e_available_drives s ! (int_of_digits choice - 1))\<rparr>)
                   else (Inr False, s))
                else (Inr False, s)))"

text \<open>\<open>get_user_drives\<close> and its loop over the full list of drives.\<close>

fun agregar_drives :: "string \<Rightarrow> adrive list \<Rightarrow> entity list \<Rightarrow> adrive list" where
  "agregar_drives user_name available [] = available"
| "agregar_drives user_name available (drive # user_drives) =
     (if \<not> (\<exists>d \<in> set available. ad_id d = id_key drive)
      then agregar_drives user_name
             (available @ [\<lparr>ad_id = id_key drive, ad_name = get_default (name drive) ''Drive'',
                            ad_type = ''shared'', ad_owner = user_name,
                            ad_quota = get_default (quota_key drive) []\<rparr>])
             user_drives
      else agregar_drives user_name available user_drives)"

definition get_user_drives ::
  "session \<Rightarrow> string option \<Rightarrow> string \<Rightarrow> string \<Rightarrow> explorer \<Rightarrow> (error + bool) \<times> explorer" where
  "get_user_drives get entrada user_id user_name s =
     (let s = s\<lparr>e_available_drives := []\<rparr>;
          drive_url = user_drive_url user_id;
          s = requested drive_url s;
          s = (case get drive_url of
                 Raises \<Rightarrow> s
               | Response status_code drive \<Rightarrow>
                   if status_code = 200 then
                     s\<lparr>e_available_drives := e_available_drives s @
                          [\<lparr>ad_id = id_key (obj drive),
                            ad_name = user_name @ '' - OneDrive Personal'',
                            ad_type = ''personal'', ad_owner = user_name,
                            ad_quota = get_default (quota_key (obj drive)) []\<rparr>]\<rparr>
                   else s);
          drives_url = user_drives_url user_id;
          s = requested drives_url s;
          s = (case get drives_url of
                 Raises \<Rightarrow> s
               | Response status_code data \<Rightarrow>
                   if status_code = 200 then
                     s\<lparr>e_available_drives :=
                          agregar_drives user_name (e_available_drives s) (batch_of data)\<rparr>
                   else s)
      in if length (e_available_drives s) = 0 then (Inr False, s)
         else if length (e_available_drives s) = 1
           then (Inr True, s\<lparr>e_drive_id := ad_id (e_available_drives s ! 0)\<rparr>)
         else select_drive entrada s)"

text \<open>\<open>search_all_drives_by_email\<close>: the sites matching the email, then the drives of each.\<close>

definition search_url :: "string \<Rightarrow> string" where
  "search_url email =
     ''https://graph.microsoft.com/v1.0/sites?$search='' @ [CHR 0x22] @ email @ [CHR 0x22]"

definition site_drives_url :: "string option \<Rightarrow> string" where
  "site_drives_url site_id = ''https://graph.microsoft.com/v1.0/sites/'' @ fmt site_id @ ''/drives''"

fun sites_loop :: "session \<Rightarrow> entity list \<Rightarrow> entity list \<Rightarrow> event list \<Rightarrow> entity list \<times> event list" where
  "sites_loop get [] drives tr = (drives, tr)"
| "sites_loop get (site # sites) drives tr =
     (let drives_url = site_drives_url (id_key site) in
      case get drives_url of
        Raises \<Rightarrow> sites_loop get sites drives (tr @ [Get drives_url])
      | Response status_code data \<Rightarrow>
          if status_code = 200
          then sites_loop get sites (drives @ batch_of data) (tr @ [Get drives_url])
          else sites_loop get sites drives (tr @ [Get drives_url]))"

definition search_all_drives_by_email ::
  "session \<Rightarrow> string \<Rightarrow> event list \<Rightarrow> entity list \<times> event list" where
  "search_all_drives_by_email get email tr =
     (case get (search_url email) of
        Raises \<Rightarrow> ([], tr @ [Get (search_url email)])
      | Response status_code data \<Rightarrow>
          if status_code = 200
          then sites_loop get (batch_of data) [] (tr @ [Get (search_url email)])
          else ([], tr @ [Get (search_url email)]))"

text \<open>
  \<open>get_drives_from_url\<close>. \<open>metodo_2\<close> is its second half (the global search), reached
  when the first half did not return. The whole body sits in one \<open>try\<close> whose handler
  returns \<open>False\<close>.
\<close>

definition users_lookup_url :: "string \<Rightarrow> string" where
  "users_lookup_url email =
     ''https://graph.microsoft.com/v1.0/users?$filter=mail eq '' @ [CHR 0x27] @ email @ [CHR 0x27]
     @ '' or userPrincipalName eq '' @ [CHR 0x27] @ email @ [CHR 0x27]"

definition huerfano :: "string \<Rightarrow> entity \<Rightarrow> adrive" where
  "huerfano email drive =
     \<lparr>ad_id = id_key drive, ad_name = get_default (name drive) ''Drive'', ad_type = ''huerfano'',
      ad_owner = email, ad_quota = get_default (quota_key drive) []\<rparr>"

definition metodo_2 :: "session \<Rightarrow> string option \<Rightarrow> string \<Rightarrow> explorer \<Rightarrow> bool \<times> explorer" where
  "metodo_2 get entrada email s =
     (case search_all_drives_by_email get email (e_log s) of
        (drives, tr) \<Rightarrow>
          let s = s\<lparr>e_log := tr\<rparr> in
          if drives \<noteq> [] then
            let s = s\<lparr>e_available_drives := map (huerfano email) drives\<rparr> in
            if length (e_available_drives s) = 1
            then (True, s\<lparr>e_drive_id := ad_id (e_available_drives s ! 0)\<rparr>)
            else (case select_drive entrada s of
                    (Inl e, s') \<Rightarrow> (False, s')
                  | (Inr b, s') \<Rightarrow> (b, s'))
          else (False, s))"

definition get_drives_from_url ::
  "session \<Rightarrow> string option \<Rightarrow> string \<Rightarrow> explorer \<Rightarrow> bool \<times> explorer" where
  "get_drives_from_url get entrada onedrive_url s =
     (case email_of_url onedrive_url of
        Inl e \<Rightarrow> (False, s)
      | Inr email \<Rightarrow>
          let users_url = users_lookup_url email;
              s = requested users_url s
          in (case get users_url of
                Raises \<Rightarrow> (False, s)
              | Response status_code data \<Rightarrow>
                  if status_code = 200 then
                    let users = batch_of data in
                    if users \<noteq> [] then
                      (case id_key (users ! 0) of
                         None \<Rightarrow> (False, s)
                       | Some user_id \<Rightarrow>
                           let user_name = get_default (displayName (users ! 0)) email in
                           (case get_user_drives get entrada user_id user_name s of
                              (Inl e, s') \<Rightarrow> (False, s')
                            | (Inr b, s') \<Rightarrow> (b, s')))
                    else metodo_2 get entrada email s
                  else if status_code = 403 then metodo_2 get entrada email s
                  else metodo_2 get entrada email s))"

subsection \<open>Sample payloads and servers\<close>

definition entity0 :: entity where
  "entity0 = \<lparr>id_key = None, name = None, displayName = None, webUrl = None, folder = False,
     size_key = None, createdDateTime = None, lastModifiedDateTime = None, quota_key = None,
     type_tag = None\<rparr>"

definition page :: "entity list \<Rightarrow> string option \<Rightarrow> body" where
  "page items cursor = \<lparr>obj = entity0, value_key = Some items, nextLink = cursor\<rparr>"

definition named :: "string \<Rightarrow> entity" where
  "named n = entity0\<lparr>id_key := Some n, name := Some n\<rparr>"

text \<open>Two pages of one item each, at the users endpoint and at the root of drive \<open>d\<close>.\<close>

definition two_pages :: session where
  "two_pages url =
     (if url = users_url \<or> url = children_url ''d'' None
        then Response 200 (page [named ''a''] (Some ''https://next/2''))
      else if url = ''https://next/2'' then Response 200 (page [named ''b''] None)
      else Response 404 (page [] None))"

text \<open>The same first page, but the request for the second page raises.\<close>

definition second_raises :: session where
  "second_raises url =
     (if url = users_url \<or> url = children_url ''d'' None
        then Response 200 (page [named ''a''] (Some ''https://next/2''))
      else Raises)"

text \<open>The same first page, but the request for the second page answers 503.\<close>

definition second_fails :: session where
  "second_fails url =
     (if url = users_url \<or> url = children_url ''d'' None
        then Response 200 (page [named ''a''] (Some ''https://next/2''))
      else Response 503 (page [] None))"

text \<open>
  A small drive \<open>d\<close>: the root holds the folder \<open>f\<close> and the file \<open>a\<close>, \<open>f\<close> holds the
  folder \<open>g\<close>, and \<open>g\<close> holds the file \<open>deep\<close>. \<open>tree_log\<close> is the log of its traversal
  with maximum depth 1.
\<close>

definition carpeta :: "string \<Rightarrow> entity" where
  "carpeta n = (named n)\<lparr>folder := True\<rparr>"

definition tree_server :: session where
  "tree_server url =
     (if url = children_url ''d'' None then Response 200 (page [carpeta ''f'', named ''a''] None)
      else if url = children_url ''d'' (Some ''f'') then Response 200 (page [carpeta ''g''] None)
      else if url = children_url ''d'' (Some ''g'') then Response 200 (page [named ''deep''] None)
      else Response 404 (page [] None))"

definition tree_log :: "event list" where
  "tree_log =
     [Call 0, Get (children_url ''d'' None),
      Append ''archivos.csv'' (archivo_row_of ''d'' ''/'' 0 (carpeta ''f'')),
      Call 1, Get (children_url ''d'' (Some ''f'')),
      Append ''archivos.csv'' (archivo_row_of ''d'' ''/f'' 1 (carpeta ''g'')),
      Return,
      Append ''archivos.csv'' (archivo_row_of ''d'' ''/'' 0 (named ''a'')),
      Return]"

text \<open>
  The same drive, but the root is listed in two pages: \<open>f\<close> on the first, \<open>a\<close> on the
  second. \<open>paged_tree_pages\<close> gives the pages with a cursor of every node,
  \<open>paged_tree_log\<close> is the log of the traversal with maximum depth 1 and
  \<open>paged_tree_frame\<close> its call tree.
\<close>

definition paged_tree_server :: session where
  "paged_tree_server url =
     (if url = children_url ''d'' None
        then Response 200 (page [carpeta ''f''] (Some ''https://next/root2''))
      else if url = ''https://next/root2'' then Response 200 (page [named ''a''] None)
      else if url = children_url ''d'' (Some ''f'') then Response 200 (page [carpeta ''g''] None)
      else if url = children_url ''d'' (Some ''g'') then Response 200 (page [named ''deep''] None)
      else Response 404 (page [] None))"

definition paged_tree_pages :: "string option \<Rightarrow> (entity list \<times> string) list" where
  "paged_tree_pages node =
     (case node of None \<Rightarrow> [([carpeta ''f''], ''https://next/root2'')] | Some i \<Rightarrow> [])"

definition paged_tree_log :: "event list" where
  "paged_tree_log =
     [Call 0, Get (children_url ''d'' None), Get ''https://next/root2'',
      Append ''archivos.csv'' (archivo_row_of ''d'' ''/'' 0 (carpeta ''f'')),
      Call 1, Get (children_url ''d'' (Some ''f'')),
      Append ''archivos.csv'' (archivo_row_of ''d'' ''/f'' 1 (carpeta ''g'')),
      Return,
      Append ''archivos.csv'' (archivo_row_of ''d'' ''/'' 0 (named ''a'')),
      Return]"

definition paged_tree_frame :: frame where
  "paged_tree_frame =
     Frame 0 None [([carpeta ''f''], ''https://next/root2'')]
       [Visit (carpeta ''f'') (archivo_row_of ''d'' ''/'' 0 (carpeta ''f''))
          (Some (Frame 1 (Some ''f'') []
                   [Visit (carpeta ''g'') (archivo_row_of ''d'' ''/f'' 1 (carpeta ''g'')) None])),
        Visit (named ''a'') (archivo_row_of ''d'' ''/'' 0 (named ''a'')) None]"

definition explorer0 :: explorer where
  "explorer0 = \<lparr>e_drive_id = None, e_available_drives = [], e_log = []\<rparr>"

definition single :: "entity \<Rightarrow> body" where
  "single e = \<lparr>obj = e, value_key = None, nextLink = None\<rparr>"

text \<open>
  A user \<open>u1\<close> whose default drive is \<open>D1\<close> and whose full list is \<open>D1, D2, D2, D3\<close>.
\<close>

definition drives_server :: session where
  "drives_server url =
     (if url = user_drive_url ''u1'' then Response 200 (single (named ''D1''))
      else if url = user_drives_url ''u1'' \<or> url = user_drives_url ''u1'' @ ''?$top=200''
        then Response 200 (page [named ''D1'', named ''D2'', named ''D2'', named ''D3''] None)
      else Response 404 (page [] None))"

definition jane_url :: string where
  "jane_url = ''https://contoso-my.sharepoint.com/personal/jane.doe_contoso_com''"

definition jane_email :: string where
  "jane_email = ''jane.doe@contoso.com''"

text \<open>
  The identity lookup finds nobody; the global search finds the site \<open>S1\<close> with the drives
  \<open>X1\<close> and \<open>X2\<close>.
\<close>

definition orphan_server :: session where
  "orphan_server url =
     (if url = users_lookup_url jane_email then Response 200 (page [] None)
      else if url = search_url jane_email then Response 200 (page [named ''S1''] None)
      else if url = site_drives_url (Some ''S1'')
        then Response 200 (page [named ''X1'', named ''X2''] None)
      else Response 404 (page [] None))"

text \<open>The same tenant, but the identity lookup is denied.\<close>

definition forbidden_server :: session where
  "forbidden_server url =
     (if url = users_lookup_url jane_email then Response 403 (page [] None)
      else orphan_server url)"

text \<open>The identity lookup finds the user \<open>u1\<close>, who has no drive.\<close>

definition no_drives_server :: session where
  "no_drives_server url =
     (if url = users_lookup_url jane_email then Response 200 (page [named ''u1''] None)
      else Response 404 (page [] None))"

text \<open>The identity lookup finds nobody and the global search finds nothing.\<close>

definition nothing_server :: session where
  "nothing_server url =
     (if url = users_lookup_url jane_email then Response 200 (page [] None)
      else Response 404 (page [] None))"

text \<open>Authentication fails: \<open>get_access_token\<close> returns \<open>False\<close>.\<close>

definition auth_fails :: "(string \<Rightarrow> token_response) \<Rightarrow> string \<Rightarrow> bool" where
  "auth_fails post tenant_id =
     (case post (token_url tenant_id) of
        Token_raises \<Rightarrow> True
      | Token_response status_code tok expires \<Rightarrow>
          status_code \<noteq> 200 \<or> tok = None \<or> expires = None)"

text \<open>A token endpoint that answers 401, one that cannot be reached, and an empty dispatch.\<close>

definition denied :: "string \<Rightarrow> token_response" where
  "denied url = Token_response 401 None None"

definition no_dispatch ::
  "entity list \<Rightarrow> entity list \<Rightarrow> string \<Rightarrow> string \<Rightarrow> string \<Rightarrow> event list \<Rightarrow> event list option" where
  "no_dispatch usuarios sites usuarios_csv sites_csv archivos_csv tr = Some tr"

definition unreachable :: "string \<Rightarrow> token_response" where
  "unreachable url = Token_raises"

section \<open>Properties of page fetching\<close>

lemma last_url_Cons: "last_url url ((b, u) # ps) = last_url u ps"
  by (simp add: last_url_def)

lemma usuarios_loop_served:
  "served get url ps \<Longrightarrow> url \<noteq> [] \<Longrightarrow>
   usuarios_loop get (Some url) acc tr
     = usuarios_loop get (Some (last_url url ps)) (acc @ concat (map fst ps))
         (tr @ map Get (butlast (url # map snd ps)))"
proof (induction ps arbitrary: url acc tr)
  case Nil
  then show ?case by (simp add: last_url_def)
next
  case (Cons p ps)
  obtain b u where p: "p = (b, u)" by (cases p)
  from Cons.prems p obtain data where
    g: "get url = Response 200 data" "batch_of data = b" "nextLink data = Some u" "u \<noteq> []"
    and rest: "served get u ps"
    by (auto split: response.splits)
  have "usuarios_loop get (Some url) acc tr
          = usuarios_loop get (Some u) (acc @ b) (tr @ [Get url])"
    using g Cons.prems(2) by (subst usuarios_loop.simps) simp
  also have "\<dots> = usuarios_loop get (Some (last_url u ps)) ((acc @ b) @ concat (map fst ps))
                     ((tr @ [Get url]) @ map Get (butlast (u # map snd ps)))"
    by (rule Cons.IH[OF rest g(4)])
  finally show ?case using p by (simp add: last_url_Cons)
qed

lemma files_loop_served:
  "served get url ps \<Longrightarrow> url \<noteq> [] \<Longrightarrow>
   files_loop get (Some url) acc tr
     = files_loop get (Some (last_url url ps)) (acc @ concat (map fst ps))
         (tr @ map Get (butlast (url # map snd ps)))"
proof (induction ps arbitrary: url acc tr)
  case Nil
  then show ?case by (simp add: last_url_def)
next
  case (Cons p ps)
  obtain b u where p: "p = (b, u)" by (cases p)
  from Cons.prems p obtain data where
    g: "get url = Response 200 data" "batch_of data = b" "nextLink data = Some u" "u \<noteq> []"
    and rest: "served get u ps"
    by (auto split: response.splits)
  have "files_loop get (Some url) acc tr
          = files_loop get (Some u) (acc @ b) (tr @ [Get url])"
    using g Cons.prems(2) by (subst files_loop.simps) simp
  also have "\<dots> = files_loop get (Some (last_url u ps)) ((acc @ b) @ concat (map fst ps))
                     ((tr @ [Get url]) @ map Get (butlast (u # map snd ps)))"
    by (rule Cons.IH[OF rest g(4)])
  finally show ?case using p by (simp add: last_url_Cons)
qed

lemma served_last_url_nonempty: "served get url ps \<Longrightarrow> url \<noteq> [] \<Longrightarrow> last_url url ps \<noteq> []"
proof (induction ps arbitrary: url)
  case Nil
  then show ?case by (simp add: last_url_def)
next
  case (Cons p ps)
  obtain b u where p: "p = (b, u)" by (cases p)
  from Cons.prems p have "u \<noteq> []" "served get u ps"
    by (auto split: response.splits)
  then show ?case using Cons.IH p by (simp add: last_url_Cons)
qed

lemma requests_snoc: "butlast (url # map snd ps) @ [last_url url ps] = url # map snd ps"
  unfolding last_url_def by (rule append_butlast_last_id) simp

lemma usuarios_loop_final:
  "final_page get url final \<Longrightarrow> url \<noteq> [] \<Longrightarrow>
   usuarios_loop get (Some url) acc tr = Some (acc @ final, tr @ [Get url])"
  apply (subst usuarios_loop.simps)
  apply (cases "get url")
   apply (simp add: final_page_def)
  apply (subst usuarios_loop.simps)
  apply (auto simp: final_page_def)
  done

lemma files_loop_final:
  "final_page get url final \<Longrightarrow> url \<noteq> [] \<Longrightarrow>
   files_loop get (Some url) acc tr = Some (Inr (acc @ final), tr @ [Get url])"
  apply (subst files_loop.simps)
  apply (cases "get url")
   apply (simp add: final_page_def)
  apply (subst files_loop.simps)
  apply (auto simp: final_page_def)
  done

lemma users_url_nonempty: "users_url \<noteq> []"
  by (simp add: users_url_def)

lemma children_url_nonempty: "children_url d i \<noteq> []"
  by (simp add: children_url_def)

lemma usuarios_all_pages:
  assumes "served get users_url ps" and "final_page get (last_url users_url ps) final"
  shows "listar_todos_los_usuarios get tr
           = Some (concat (map fst ps) @ final, tr @ map Get (users_url # map snd ps))"
proof -
  have ne: "last_url users_url ps \<noteq> []"
    by (rule served_last_url_nonempty[OF assms(1) users_url_nonempty])
  have "listar_todos_los_usuarios get tr = usuarios_loop get (Some users_url) [] tr"
    by (simp add: listar_todos_los_usuarios_def)
  also have "\<dots> = usuarios_loop get (Some (last_url users_url ps)) ([] @ concat (map fst ps))
                      (tr @ map Get (butlast (users_url # map snd ps)))"
    by (rule usuarios_loop_served[OF assms(1) users_url_nonempty])
  also have "\<dots> = Some (([] @ concat (map fst ps)) @ final,
                       (tr @ map Get (butlast (users_url # map snd ps))) @ [Get (last_url users_url ps)])"
    by (rule usuarios_loop_final[OF assms(2) ne])
  also have "\<dots> = Some (concat (map fst ps) @ final,
                       tr @ map Get (butlast (users_url # map snd ps) @ [last_url users_url ps]))"
    by simp
  finally show ?thesis by (simp only: requests_snoc)
qed

lemma files_all_pages:
  assumes "truthy drive_id"
    and "served get (children_url (the drive_id) item_id) ps"
    and "final_page get (last_url (children_url (the drive_id) item_id) ps) final"
  shows "list_files drive_id get item_id tr
           = Some (concat (map fst ps) @ final,
                   tr @ map Get (children_url (the drive_id) item_id # map snd ps))"
proof -
  let ?u = "children_url (the drive_id) item_id"
  have ne: "last_url ?u ps \<noteq> []"
    by (rule served_last_url_nonempty[OF assms(2) children_url_nonempty])
  have "files_loop get (Some ?u) [] tr
          = files_loop get (Some (last_url ?u ps)) ([] @ concat (map fst ps))
              (tr @ map Get (butlast (?u # map snd ps)))"
    by (rule files_loop_served[OF assms(2) children_url_nonempty])
  also have "\<dots> = Some (Inr (([] @ concat (map fst ps)) @ final),
                       (tr @ map Get (butlast (?u # map snd ps))) @ [Get (last_url ?u ps)])"
    by (rule files_loop_final[OF assms(3) ne])
  also have "\<dots> = Some (Inr (concat (map fst ps) @ final),
                       tr @ map Get (butlast (?u # map snd ps) @ [last_url ?u ps]))"
    by simp
  finally have "files_loop get (Some ?u) [] tr
                  = Some (Inr (concat (map fst ps) @ final), tr @ map Get (?u # map snd ps))"
    by (simp only: requests_snoc)
  then show ?thesis using assms(1) by (simp add: list_files_def)
qed

text \<open>
  C3. A collection split into pages in any way (any batches \<open>ps\<close> with their cursors, a
  last page \<open>final\<close> without cursor), every request answered with status 200: both page
  fetchers return and give exactly the items of all pages, in page order, after
  requesting each page once.
\<close>

theorem C3_fetch_returns_all_items:
  "(served get users_url ps \<and> final_page get (last_url users_url ps) final \<longrightarrow>
      listar_todos_los_usuarios get tr
        = Some (concat (map fst ps) @ final, tr @ map Get (users_url # map snd ps)))
   \<and> (truthy drive_id \<and> served get (children_url (the drive_id) item_id) ps
        \<and> final_page get (last_url (children_url (the drive_id) item_id) ps) final \<longrightarrow>
      list_files drive_id get item_id tr
        = Some (concat (map fst ps) @ final,
                tr @ map Get (children_url (the drive_id) item_id # map snd ps)))"
  using usuarios_all_pages files_all_pages by blast

lemma two_pages_served_users: "served two_pages users_url [([named ''a''], ''https://next/2'')]"
  by (simp add: two_pages_def page_def batch_of_def)

lemma two_pages_served_files:
  "served two_pages (children_url ''d'' None) [([named ''a''], ''https://next/2'')]"
  by (simp add: two_pages_def page_def batch_of_def)

lemma two_pages_final: "final_page two_pages ''https://next/2'' [named ''b'']"
  by (simp add: final_page_def two_pages_def page_def batch_of_def users_url_def children_url_def)

theorem C3_fetch_returns_all_items_witness:
  "served two_pages users_url [([named ''a''], ''https://next/2'')]
   \<and> final_page two_pages ''https://next/2'' [named ''b'']
   \<and> listar_todos_los_usuarios two_pages []
       = Some ([named ''a'', named ''b''], [Get users_url, Get ''https://next/2''])
   \<and> served two_pages (children_url ''d'' None) [([named ''a''], ''https://next/2'')]
   \<and> list_files (Some ''d'') two_pages None []
       = Some ([named ''a'', named ''b''], [Get (children_url ''d'' None), Get ''https://next/2''])"
  using C3_fetch_returns_all_items[of two_pages "[([named ''a''], ''https://next/2'')]"
          "[named ''b'']" "[]" "Some ''d''" None]
        two_pages_served_users two_pages_served_files two_pages_final
  by (simp add: last_url_def)

lemma usuarios_loop_failed:
  "get url = Raises \<or> bad_status get url \<Longrightarrow> url \<noteq> [] \<Longrightarrow>
   usuarios_loop get (Some url) acc tr = Some (acc, tr @ [Get url])"
  by (subst usuarios_loop.simps) (auto simp: bad_status_def split: response.splits)

lemma files_loop_bad_status:
  "bad_status get url \<Longrightarrow> url \<noteq> [] \<Longrightarrow>
   files_loop get (Some url) acc tr = Some (Inr acc, tr @ [Get url])"
  by (subst files_loop.simps) (auto simp: bad_status_def split: response.splits)

lemma files_loop_raises:
  "get url = Raises \<Longrightarrow> url \<noteq> [] \<Longrightarrow>
   files_loop get (Some url) acc tr = Some (Inl Exception, tr @ [Get url])"
  by (subst files_loop.simps) simp

lemma usuarios_partial:
  assumes "served get users_url ps"
    and "get (last_url users_url ps) = Raises \<or> bad_status get (last_url users_url ps)"
  shows "listar_todos_los_usuarios get tr
           = Some (concat (map fst ps), tr @ map Get (users_url # map snd ps))"
proof -
  have ne: "last_url users_url ps \<noteq> []"
    by (rule served_last_url_nonempty[OF assms(1) users_url_nonempty])
  have "listar_todos_los_usuarios get tr = usuarios_loop get (Some users_url) [] tr"
    by (simp add: listar_todos_los_usuarios_def)
  also have "\<dots> = usuarios_loop get (Some (last_url users_url ps)) ([] @ concat (map fst ps))
                      (tr @ map Get (butlast (users_url # map snd ps)))"
    by (rule usuarios_loop_served[OF assms(1) users_url_nonempty])
  also have "\<dots> = Some ([] @ concat (map fst ps),
                       (tr @ map Get (butlast (users_url # map snd ps))) @ [Get (last_url users_url ps)])"
    by (rule usuarios_loop_failed[OF assms(2) ne])
  also have "\<dots> = Some (concat (map fst ps),
                       tr @ map Get (butlast (users_url # map snd ps) @ [last_url users_url ps]))"
    by simp
  finally show ?thesis by (simp only: requests_snoc)
qed

lemma files_loop_to_last:
  assumes "served get url ps" and "url \<noteq> []"
    and "files_loop get (Some (last_url url ps)) (concat (map fst ps))
           (tr @ map Get (butlast (url # map snd ps)))
         = Some (r, (tr @ map Get (butlast (url # map snd ps))) @ [Get (last_url url ps)])"
  shows "files_loop get (Some url) [] tr = Some (r, tr @ map Get (url # map snd ps))"
proof -
  have "files_loop get (Some url) [] tr
          = files_loop get (Some (last_url url ps)) ([] @ concat (map fst ps))
              (tr @ map Get (butlast (url # map snd ps)))"
    by (rule files_loop_served[OF assms(1,2)])
  also have "\<dots> = Some (r, tr @ map Get (butlast (url # map snd ps) @ [last_url url ps]))"
    using assms(3) by simp
  finally show ?thesis by (simp only: requests_snoc)
qed

lemma files_partial_status:
  assumes "truthy drive_id"
    and "served get (children_url (the drive_id) item_id) ps"
    and "bad_status get (last_url (children_url (the drive_id) item_id) ps)"
  shows "list_files drive_id get item_id tr
           = Some (concat (map fst ps),
                   tr @ map Get (children_url (the drive_id) item_id # map snd ps))"
proof -
  let ?u = "children_url (the drive_id) item_id"
  have ne: "last_url ?u ps \<noteq> []"
    by (rule served_last_url_nonempty[OF assms(2) children_url_nonempty])
  have "files_loop get (Some ?u) [] tr = Some (Inr (concat (map fst ps)), tr @ map Get (?u # map snd ps))"
    by (rule files_loop_to_last[OF assms(2) children_url_nonempty files_loop_bad_status[where get=get, OF assms(3) ne]])
  then show ?thesis using assms(1) by (simp add: list_files_def)
qed

lemma files_partial_raises:
  assumes "truthy drive_id"
    and "served get (children_url (the drive_id) item_id) ps"
    and "get (last_url (children_url (the drive_id) item_id) ps) = Raises"
  shows "list_files drive_id get item_id tr
           = Some ([], tr @ map Get (children_url (the drive_id) item_id # map snd ps))"
proof -
  let ?u = "children_url (the drive_id) item_id"
  have ne: "last_url ?u ps \<noteq> []"
    by (rule served_last_url_nonempty[OF assms(2) children_url_nonempty])
  have "files_loop get (Some ?u) [] tr = Some (Inl Exception, tr @ map Get (?u # map snd ps))"
    by (rule files_loop_to_last[OF assms(2) children_url_nonempty files_loop_raises[where get=get, OF assms(3) ne]])
  then show ?thesis using assms(1) by (simp add: list_files_def)
qed

lemma second_raises_served:
  "served second_raises (children_url ''d'' None) [([named ''a''], ''https://next/2'')]"
  "served second_raises users_url [([named ''a''], ''https://next/2'')]"
  by (simp_all add: second_raises_def page_def batch_of_def)

lemma second_raises_next: "second_raises ''https://next/2'' = Raises"
  by (simp add: second_raises_def users_url_def children_url_def)

text \<open>
  C4, as stated, fails for \<open>list_files\<close>: the first page delivers an item and a cursor,
  the request for the second page raises, and the handler returns the empty list, not
  the item of the first page.
\<close>

theorem C4_list_files_discards_on_raise:
  "served second_raises (children_url ''d'' None) [([named ''a''], ''https://next/2'')]
   \<and> second_raises (last_url (children_url ''d'' None) [([named ''a''], ''https://next/2'')]) = Raises
   \<and> list_files (Some ''d'') second_raises None []
        = Some ([], [Get (children_url ''d'' None), Get ''https://next/2''])
   \<and> concat (map fst [([named ''a''], ''https://next/2'')]) \<noteq> ([] :: entity list)"
  using files_partial_raises[of "Some ''d''" second_raises None
          "[([named ''a''], ''https://next/2'')]" "[]"]
        second_raises_served second_raises_next
  by (simp add: last_url_def)

text \<open>
  C4, amended. After the pages \<open>ps\<close> were served, the next request fails.
  \<open>listar_todos_los_usuarios\<close> returns exactly the items of \<open>ps\<close> whether the request raised
  or answered a status other than 200. \<open>list_files\<close> returns exactly the items of \<open>ps\<close>
  when the status is not 200, and the empty list when the request raised. In every case
  the fetcher returns a list (it does not raise) and the failed request is the last one it
  made.
\<close>

theorem C4_fetch_stops_at_failed_page:
  "(served get users_url ps
      \<and> (get (last_url users_url ps) = Raises \<or> bad_status get (last_url users_url ps)) \<longrightarrow>
    listar_todos_los_usuarios get tr
      = Some (concat (map fst ps), tr @ map Get (users_url # map snd ps)))
   \<and> (truthy drive_id \<and> served get (children_url (the drive_id) item_id) ps
        \<and> bad_status get (last_url (children_url (the drive_id) item_id) ps) \<longrightarrow>
      list_files drive_id get item_id tr
        = Some (concat (map fst ps),
                tr @ map Get (children_url (the drive_id) item_id # map snd ps)))
   \<and> (truthy drive_id \<and> served get (children_url (the drive_id) item_id) ps
        \<and> get (last_url (children_url (the drive_id) item_id) ps) = Raises \<longrightarrow>
      list_files drive_id get item_id tr
        = Some ([], tr @ map Get (children_url (the drive_id) item_id # map snd ps)))"
  using usuarios_partial files_partial_status files_partial_raises by blast

lemma second_fails_bad_status: "bad_status second_fails ''https://next/2''"
  by (simp add: second_fails_def bad_status_def users_url_def children_url_def)

lemma second_fails_served:
  "served second_fails (children_url ''d'' None) [([named ''a''], ''https://next/2'')]"
  "served second_fails users_url [([named ''a''], ''https://next/2'')]"
  by (simp_all add: second_fails_def page_def batch_of_def)

theorem C4_fetch_stops_at_failed_page_witness:
  "served second_fails users_url [([named ''a''], ''https://next/2'')]
   \<and> bad_status second_fails ''https://next/2''
   \<and> listar_todos_los_usuarios second_fails []
        = Some ([named ''a''], [Get users_url, Get ''https://next/2''])
   \<and> served second_fails (children_url ''d'' None) [([named ''a''], ''https://next/2'')]
   \<and> list_files (Some ''d'') second_fails None []
        = Some ([named ''a''], [Get (children_url ''d'' None), Get ''https://next/2''])"
  using C4_fetch_stops_at_failed_page[of second_fails "[([named ''a''], ''https://next/2'')]"
          "[]" "Some ''d''" None]
        second_fails_served second_fails_bad_status
  by (simp add: last_url_def)

section \<open>Properties of the traversal\<close>

lemma items_loop_served:
  "served get url ps \<Longrightarrow> url \<noteq> [] \<Longrightarrow>
   items_loop get (Some url) acc tr
     = items_loop get (Some (last_url url ps)) (acc @ concat (map fst ps))
         (tr @ map Get (butlast (url # map snd ps)))"
proof (induction ps arbitrary: url acc tr)
  case Nil
  then show ?case by (simp add: last_url_def)
next
  case (Cons p ps)
  obtain b u where p: "p = (b, u)" by (cases p)
  from Cons.prems p obtain data where
    g: "get url = Response 200 data" "batch_of data = b" "nextLink data = Some u" "u \<noteq> []"
    and rest: "served get u ps"
    by (auto split: response.splits)
  have "items_loop get (Some url) acc tr
          = items_loop get (Some u) (acc @ b) (tr @ [Get url])"
    using g Cons.prems(2) by (subst items_loop.simps) simp
  also have "\<dots> = items_loop get (Some (last_url u ps)) ((acc @ b) @ concat (map fst ps))
                     ((tr @ [Get url]) @ map Get (butlast (u # map snd ps)))"
    by (rule Cons.IH[OF rest g(4)])
  finally show ?case using p by (simp add: last_url_Cons)
qed

lemma items_loop_falsy:
  "\<not> truthy url \<Longrightarrow> items_loop get url acc tr = Some (Inr acc, tr)"
  by (subst items_loop.simps) simp

lemma items_loop_ends:
  "ends get url \<Longrightarrow> url \<noteq> [] \<Longrightarrow> \<exists>r. items_loop get (Some url) acc tr = Some (r, tr @ [Get url])"
  by (subst items_loop.simps, cases "get url")
     (auto simp: ends_def items_loop_falsy)

text \<open>A listing whose chain of pages is finite is fetched by the page loop in finitely many requests.\<close>

lemma items_loop_returns:
  assumes "served get url ps" and "ends get (last_url url ps)" and "url \<noteq> []"
  shows "\<exists>r. items_loop get (Some url) acc tr = Some (r, tr @ map Get (url # map snd ps))"
proof -
  have ne: "last_url url ps \<noteq> []"
    by (rule served_last_url_nonempty[OF assms(1,3)])
  from items_loop_ends[OF assms(2) ne] obtain r where
    "items_loop get (Some (last_url url ps)) (acc @ concat (map fst ps))
       (tr @ map Get (butlast (url # map snd ps)))
     = Some (r, (tr @ map Get (butlast (url # map snd ps))) @ [Get (last_url url ps)])"
    by blast
  then have "items_loop get (Some url) acc tr
               = Some (r, tr @ map Get (butlast (url # map snd ps) @ [last_url url ps]))"
    using items_loop_served[OF assms(1,3), of acc tr] by simp
  then show ?thesis by (auto simp only: requests_snoc)
qed

text \<open>Conversely, a page loop that returns has walked a finite chain of pages.\<close>

lemma items_loop_pages_aux:
  "items_loop get url acc tr = Some y \<Longrightarrow>
   (\<not> truthy url \<longrightarrow> y = (Inr acc, tr))
   \<and> (truthy url \<longrightarrow>
        (\<exists>ps. served get (the url) ps
           \<and> snd y = tr @ map Get (the url # map snd ps)
           \<and> (case get (last_url (the url) ps) of
                 Raises \<Rightarrow> fst y = Inl Exception
               | Response st data \<Rightarrow>
                   if st = 200
                   then \<not> truthy (nextLink data)
                        \<and> fst y = Inr (acc @ concat (map fst ps) @ batch_of data)
                   else fst y = Inr (acc @ concat (map fst ps)))))"
proof (induction get url acc tr y rule: items_loop.raw_induct[rotated 1, consumes 1, case_names step])
  case (step loop get url acc tr y)
  show ?case
  proof (cases "truthy url")
    case False
    with step(2) show ?thesis by simp
  next
    case True
    then obtain u where url: "url = Some u" and u: "u \<noteq> []" by (cases url) auto
    show ?thesis
    proof (cases "get u")
      case Raises
      with url u step(2) have "y = (Inl Exception, tr @ [Get u])" by simp
      with url u Raises show ?thesis
        by (auto intro!: exI[of _ "[]"] simp: last_url_def)
    next
      case (Response st data)
      show ?thesis
      proof (cases "st = 200")
        case False
        with url u Response step(2) have "y = (Inr acc, tr @ [Get u])" by simp
        with url u Response False show ?thesis
          by (auto intro!: exI[of _ "[]"] simp: last_url_def)
      next
        case st: True
        with url u Response step(2)
        have rec: "loop get (nextLink data) (acc @ batch_of data) (tr @ [Get u]) = Some y"
          by simp
        note IH = step(1)[OF rec]
        show ?thesis
        proof (cases "truthy (nextLink data)")
          case False
          with IH have "y = (Inr (acc @ batch_of data), tr @ [Get u])" by simp
          with url u Response st False show ?thesis
            by (auto intro!: exI[of _ "[]"] simp: last_url_def)
        next
          case nl: True
          then obtain u' where u': "nextLink data = Some u'" "u' \<noteq> []"
            by (cases "nextLink data") auto
          from IH nl u' obtain ps where
            ps: "served get u' ps"
              "snd y = (tr @ [Get u]) @ map Get (u' # map snd ps)"
              "case get (last_url u' ps) of
                 Raises \<Rightarrow> fst y = Inl Exception
               | Response st data' \<Rightarrow>
                   if st = 200
                   then \<not> truthy (nextLink data')
                        \<and> fst y = Inr ((acc @ batch_of data) @ concat (map fst ps) @ batch_of data')
                   else fst y = Inr ((acc @ batch_of data) @ concat (map fst ps))"
            by auto
          have sv: "served get u ((batch_of data, u') # ps)"
            using Response st u' ps(1) by simp
          show ?thesis
            using url u sv ps(2,3)
            by (auto intro!: exI[of _ "(batch_of data, u') # ps"] simp: last_url_Cons
                     split: response.splits)
        qed
      qed
    qed
  qed
qed

lemma items_loop_pages:
  assumes "items_loop get (Some url) [] tr = Some (res, tr')" and "url \<noteq> []"
  obtains ps where "served get url ps"
    and "tr' = tr @ map Get (url # map snd ps)"
    and "res = Inl Exception \<or> (\<exists>items. res = Inr items)"
    and "\<And>e. res = Inl e \<Longrightarrow> listing_result get (last_url url ps) (concat (map fst ps)) []"
    and "\<And>items. res = Inr items \<Longrightarrow>
           listing_result get (last_url url ps) (concat (map fst ps)) items"
proof -
  from items_loop_pages_aux[OF assms(1)] assms(2)
  have "\<exists>ps. served get url ps \<and> tr' = tr @ map Get (url # map snd ps)
          \<and> (case get (last_url url ps) of
                 Raises \<Rightarrow> res = Inl Exception
               | Response st data \<Rightarrow>
                   if st = 200
                   then \<not> truthy (nextLink data) \<and> res = Inr (concat (map fst ps) @ batch_of data)
                   else res = Inr (concat (map fst ps)))"
    by (simp cong: response.case_cong if_cong)
  then obtain ps where
    ps: "served get url ps" "tr' = tr @ map Get (url # map snd ps)"
      "case get (last_url url ps) of
         Raises \<Rightarrow> res = Inl Exception
       | Response st data \<Rightarrow>
           if st = 200
           then \<not> truthy (nextLink data) \<and> res = Inr (concat (map fst ps) @ batch_of data)
           else res = Inr (concat (map fst ps))"
    by blast
  show thesis
  proof (rule that[OF ps(1,2)])
    show "res = Inl Exception \<or> (\<exists>items. res = Inr items)"
      using ps(3) by (auto split: response.splits if_splits)
    show "\<And>e. res = Inl e \<Longrightarrow> listing_result get (last_url url ps) (concat (map fst ps)) []"
      using ps(3) by (auto simp: listing_result_def split: response.splits if_splits)
    show "\<And>items. res = Inr items \<Longrightarrow>
           listing_result get (last_url url ps) (concat (map fst ps)) items"
      using ps(3) by (auto simp: listing_result_def split: response.splits if_splits)
  qed
qed

text \<open>
  The log of a returning traversal is the pre-order log of its call tree, and the log of
  the item loop is the pre-order log of one visit per item.
\<close>

lemma traversal_call_tree:
  "\<forall>tr'. listar_archivos_recursivo D get d i r p c tr = Some tr' \<longrightarrow>
      (if D < p then tr' = tr
       else \<exists>fr. tr' = tr @ events_of_frame d c fr \<and> wf_frame D get d p i r fr)"
  "\<forall>tr'. procesar_items D get d r p c items tr = Some tr' \<longrightarrow> p \<le> D \<longrightarrow>
      (\<exists>vs. map v_item vs = items
         \<and> tr' = tr @ concat (map (events_of_visit d c) vs)
         \<and> (\<forall>v \<in> set vs. wf_visit D get d p r v))"
proof (induction D get d i r p c tr and D get d r p c items tr
       rule: listar_archivos_recursivo_procesar_items.induct)
  case (1 D get d i r p c tr)
  show ?case
  proof (intro allI impI)
    fix tr'
    assume run: "listar_archivos_recursivo D get d i r p c tr = Some tr'"
    show "if D < p then tr' = tr
          else \<exists>fr. tr' = tr @ events_of_frame d c fr \<and> wf_frame D get d p i r fr"
    proof (cases "D < p")
      case True
      with run show ?thesis by simp
    next
      case False
      then obtain res t1 where
        loop: "items_loop get (Some (children_url d i)) [] (tr @ [Call p]) = Some (res, t1)"
        using run by (auto split: option.splits)
      from items_loop_pages[OF loop children_url_nonempty] obtain ps where
        ps: "served get (children_url d i) ps"
        and t1: "t1 = (tr @ [Call p]) @ map Get (children_url d i # map snd ps)"
        and failed: "\<And>e. res = Inl e \<Longrightarrow>
                 listing_result get (last_url (children_url d i) ps) (concat (map fst ps)) []"
        and ok: "\<And>items. res = Inr items \<Longrightarrow>
                 listing_result get (last_url (children_url d i) ps) (concat (map fst ps)) items"
        by blast
      show ?thesis
      proof (cases res)
        case (Inl e)
        with run False loop have "tr' = t1 @ [Return]" by simp
        with t1 False ps failed[OF Inl] show ?thesis
          by (auto intro!: exI[of _ "Frame p i ps []"])
      next
        case (Inr items)
        with run False loop obtain t2 where
          t2: "procesar_items D get d r p c items t1 = Some t2" and tr': "tr' = t2 @ [Return]"
          by (auto split: option.splits)
        from 1[OF False loop refl Inr] t2 False obtain vs where
          vs: "map v_item vs = items"
            "t2 = t1 @ concat (map (events_of_visit d c) vs)"
            "\<forall>v \<in> set vs. wf_visit D get d p r v"
          by auto
        with t1 tr' False ps ok[OF Inr] show ?thesis
          by (auto intro!: exI[of _ "Frame p i ps vs"])
      qed
    qed
  qed
next
  case (2 D get d r p c tr)
  show ?case by simp
next
  case (3 D get d r p c item items tr)
  let ?row = "archivo_row_of d r p item"
  let ?tr1 = "if truthy c then tr @ [Append (the c) ?row] else tr"
  have tr1: "?tr1 = tr @ emit c ?row" by (simp add: emit_def)
  show ?case
  proof (intro allI impI)
    fix tr'
    assume run: "procesar_items D get d r p c (item # items) tr = Some tr'" and pD: "p \<le> D"
    show "\<exists>vs. map v_item vs = item # items
            \<and> tr' = tr @ concat (map (events_of_visit d c) vs)
            \<and> (\<forall>v \<in> set vs. wf_visit D get d p r v)"
    proof (cases "folder item \<and> p < D")
      case True
      with run obtain t2 where
        sub: "listar_archivos_recursivo D get d (id_key item) (r_ruta ?row) (p + 1) c ?tr1 = Some t2"
        and rest: "procesar_items D get d r p c items t2 = Some tr'"
        by (auto simp: Let_def split: option.splits)
      from 3(1)[OF refl refl True] sub True obtain fr where
        fr: "t2 = ?tr1 @ events_of_frame d c fr"
          "wf_frame D get d (p + 1) (id_key item) (r_ruta ?row) fr"
        by (auto split: if_splits)
      from 3(2)[OF refl refl True sub] rest pD obtain vs where
        vs: "map v_item vs = items"
          "tr' = t2 @ concat (map (events_of_visit d c) vs)"
          "\<forall>v \<in> set vs. wf_visit D get d p r v"
        by blast
      show ?thesis
        using vs fr tr1 True
        by (intro exI[of _ "Visit item ?row (Some fr) # vs"]) simp
    next
      case False
      with run have rest: "procesar_items D get d r p c items ?tr1 = Some tr'"
        by (auto simp: Let_def)
      from 3(3)[OF refl refl False] rest pD obtain vs where
        vs: "map v_item vs = items"
          "tr' = ?tr1 @ concat (map (events_of_visit d c) vs)"
          "\<forall>v \<in> set vs. wf_visit D get d p r v"
        by blast
      show ?thesis
        using vs tr1 False
        by (intro exI[of _ "Visit item ?row None # vs"]) simp
    qed
  qed
qed

lemma items_loop_all_pages:
  assumes "served get url ps" and "final_page get (last_url url ps) final" and "url \<noteq> []"
  shows "items_loop get (Some url) [] tr
           = Some (Inr (concat (map fst ps) @ final), tr @ map Get (url # map snd ps))"
proof -
  have ne: "last_url url ps \<noteq> []"
    by (rule served_last_url_nonempty[OF assms(1,3)])
  have last: "items_loop get (Some (last_url url ps)) acc t
                = Some (Inr (acc @ final), t @ [Get (last_url url ps)])" for acc t
    using assms(2) ne
    by (subst items_loop.simps, cases "get (last_url url ps)")
       (auto simp: final_page_def items_loop_falsy)
  have "items_loop get (Some url) [] tr
          = Some (Inr (concat (map fst ps) @ final),
                  tr @ map Get (butlast (url # map snd ps) @ [last_url url ps]))"
    using items_loop_served[OF assms(1,3), of "[]" tr] last by simp
  then show ?thesis by (simp only: requests_snoc)
qed

lemma items_loop_partial:
  assumes "served get url ps" and "bad_status get (last_url url ps)" and "url \<noteq> []"
  shows "items_loop get (Some url) [] tr
           = Some (Inr (concat (map fst ps)), tr @ map Get (url # map snd ps))"
proof -
  have ne: "last_url url ps \<noteq> []"
    by (rule served_last_url_nonempty[OF assms(1,3)])
  have last: "items_loop get (Some (last_url url ps)) acc t
                = Some (Inr acc, t @ [Get (last_url url ps)])" for acc t
    using assms(2) ne
    by (subst items_loop.simps, cases "get (last_url url ps)") (auto simp: bad_status_def)
  have "items_loop get (Some url) [] tr
          = Some (Inr (concat (map fst ps)),
                  tr @ map Get (butlast (url # map snd ps) @ [last_url url ps]))"
    using items_loop_served[OF assms(1,3), of "[]" tr] last by simp
  then show ?thesis by (simp only: requests_snoc)
qed

lemma items_loop_single:
  "get url = Response 200 data \<Longrightarrow> \<not> truthy (nextLink data) \<Longrightarrow> url \<noteq> [] \<Longrightarrow>
   items_loop get (Some url) acc tr = Some (Inr (acc @ batch_of data), tr @ [Get url])"
  by (subst items_loop.simps, simp, subst items_loop.simps, simp)

lemma tree_server_root:
  "items_loop tree_server (Some (children_url ''d'' None)) [] tr
     = Some (Inr [carpeta ''f'', named ''a''], tr @ [Get (children_url ''d'' None)])"
  by (subst items_loop_single[where data = "page [carpeta ''f'', named ''a''] None"])
     (simp_all add: tree_server_def page_def batch_of_def children_url_def)

lemma tree_server_f:
  "items_loop tree_server (Some (children_url ''d'' (Some ''f''))) [] tr
     = Some (Inr [carpeta ''g''], tr @ [Get (children_url ''d'' (Some ''f''))])"
  by (subst items_loop_single[where data = "page [carpeta ''g''] None"])
     (simp_all add: tree_server_def page_def batch_of_def children_url_def)

lemma tree_run:
  "listar_archivos_recursivo 1 tree_server ''d'' None ''/'' 0 (Some ''archivos.csv'') [] = Some tree_log"
  by (simp add: tree_server_root tree_server_f tree_log_def carpeta_def named_def entity0_def
        archivo_row_of_def rstrip_slash_def get_default_def Let_def)

lemma paged_tree_root:
  "items_loop paged_tree_server (Some (children_url ''d'' None)) [] tr
     = Some (Inr [carpeta ''f'', named ''a''],
             tr @ [Get (children_url ''d'' None), Get ''https://next/root2''])"
  using items_loop_all_pages[of paged_tree_server "children_url ''d'' None"
          "[([carpeta ''f''], ''https://next/root2'')]" "[named ''a'']" tr]
  by (simp add: paged_tree_server_def page_def batch_of_def children_url_def last_url_def
        final_page_def)

lemma paged_tree_f:
  "items_loop paged_tree_server (Some (children_url ''d'' (Some ''f''))) [] tr
     = Some (Inr [carpeta ''g''], tr @ [Get (children_url ''d'' (Some ''f''))])"
  by (subst items_loop_single[where data = "page [carpeta ''g''] None"])
     (simp_all add: paged_tree_server_def page_def batch_of_def children_url_def)

lemma paged_tree_run:
  "listar_archivos_recursivo 1 paged_tree_server ''d'' None ''/'' 0 (Some ''archivos.csv'') []
     = Some paged_tree_log"
  by (simp add: paged_tree_root paged_tree_f paged_tree_log_def carpeta_def named_def entity0_def
        archivo_row_of_def rstrip_slash_def get_default_def Let_def)

lemma paged_tree_finite:
  "served paged_tree_server (children_url ''d'' node) (paged_tree_pages node)
   \<and> ends paged_tree_server (last_url (children_url ''d'' node) (paged_tree_pages node))"
proof (cases node)
  case None
  then show ?thesis
    by (simp add: paged_tree_pages_def paged_tree_server_def page_def batch_of_def
          children_url_def last_url_def ends_def)
next
  case (Some i)
  have "\<exists>st data. paged_tree_server (children_url ''d'' (Some i)) = Response st data
          \<and> nextLink data = None"
    by (simp add: paged_tree_server_def page_def children_url_def)
  then show ?thesis using Some
    by (auto simp: paged_tree_pages_def last_url_def ends_def)
qed

lemma second_fails_root:
  "items_loop second_fails (Some (children_url ''d'' None)) [] tr
     = Some (Inr [named ''a''], tr @ [Get (children_url ''d'' None), Get ''https://next/2''])"
  using items_loop_partial[of second_fails "children_url ''d'' None"
          "[([named ''a''], ''https://next/2'')]" tr]
  by (simp add: second_fails_def page_def batch_of_def children_url_def last_url_def
        bad_status_def users_url_def)

lemma stack_after_append: "stack_after c (xs @ ys) = stack_after (stack_after c xs) ys"
  by (induction c xs rule: stack_after.induct) simp_all

lemma stack_peak_ge: "c \<le> stack_peak c es"
  by (induction c es rule: stack_peak.induct) (simp_all add: max.coboundedI1)

lemma stack_peak_append:
  "stack_peak c (xs @ ys) = max (stack_peak c xs) (stack_peak (stack_after c xs) ys)"
  by (induction c xs rule: stack_peak.induct)
     (simp_all add: max.assoc max_absorb2 stack_peak_ge)

lemma stack_Gets: "stack_after c (map Get urls) = c" "stack_peak c (map Get urls) = c"
  by (induction urls) simp_all

lemma stack_emit: "stack_after c (emit f row) = c" "stack_peak c (emit f row) = c"
  by (simp_all add: emit_def)

lemma stack_concat:
  assumes "\<And>v c. v \<in> set vs \<Longrightarrow> stack_after c (ev v) = c \<and> stack_peak c (ev v) \<le> c + n"
  shows "stack_after c (concat (map ev vs)) = c \<and> stack_peak c (concat (map ev vs)) \<le> c + n"
  using assms
proof (induction vs)
  case Nil
  show ?case by simp
next
  case (Cons v vs)
  have v: "stack_after c (ev v) = c" "stack_peak c (ev v) \<le> c + n"
    using Cons.prems[of v c] by simp_all
  have rest: "stack_after c (concat (map ev vs)) = c \<and> stack_peak c (concat (map ev vs)) \<le> c + n"
    by (rule Cons.IH) (simp add: Cons.prems)
  show ?case using v rest by (simp add: stack_after_append stack_peak_append)
qed

lemma stack_call_tree:
  "wf_frame D get d p i r fr \<Longrightarrow>
     stack_after c (events_of_frame d f fr) = c
     \<and> stack_peak c (events_of_frame d f fr) \<le> c + nat (D - p + 1)"
  "wf_visit D get d p r v \<Longrightarrow>
     stack_after c (events_of_visit d f v) = c
     \<and> stack_peak c (events_of_visit d f v) \<le> c + nat (D - p)"
proof (induction D get d p i r fr and D get d p r v arbitrary: c and c
       rule: wf_frame_wf_visit.induct)
  case (1 D get d p item_id ruta q i ps vs)
  then have wf: "\<And>v. v \<in> set vs \<Longrightarrow> wf_visit D get d p ruta v" and pD: "p \<le> D" and q: "q = p"
    by simp_all
  have "stack_after (Suc c) (concat (map (events_of_visit d f) vs)) = Suc c
        \<and> stack_peak (Suc c) (concat (map (events_of_visit d f) vs)) \<le> Suc c + nat (D - p)"
    by (rule stack_concat) (use 1 wf in blast)
  then show ?case using pD stack_Gets[of "Suc c" "map snd ps"]
    by (simp add: stack_after_append stack_peak_append nat_add_distrib)
next
  case (2 D get d p ruta item row)
  show ?case by (simp add: stack_emit)
next
  case (3 D get d p ruta item row fr)
  from "3.prems" have row: "row = archivo_row_of d ruta p item" and fo: "folder item"
    and pD: "p < D" and wf: "wf_frame D get d (p + 1) (id_key item) (r_ruta row) fr"
    by auto
  from "3.IH"[OF wf, of c]
  have "stack_after c (events_of_frame d f fr) = c"
       "stack_peak c (events_of_frame d f fr) \<le> c + nat (D - (p + 1) + 1)"
    by simp_all
  then show ?case using pD
    by (simp add: stack_after_append stack_peak_append stack_emit del: events_of_frame.simps)
qed

lemma rows_call_tree:
  "wf_frame D get d p i r fr \<Longrightarrow>
     (\<forall>file row. Append file row \<in> set (events_of_frame d f fr) \<longrightarrow> p \<le> r_profundidad row \<and> r_profundidad row \<le> D)
     \<and> (\<forall>q. Call q \<in> set (events_of_frame d f fr) \<longrightarrow> p \<le> q \<and> q \<le> D)"
  "wf_visit D get d p r v \<Longrightarrow> p \<le> D \<Longrightarrow>
     (\<forall>file row. Append file row \<in> set (events_of_visit d f v) \<longrightarrow> p \<le> r_profundidad row \<and> r_profundidad row \<le> D)
     \<and> (\<forall>q. Call q \<in> set (events_of_visit d f v) \<longrightarrow> p < q \<and> q \<le> D)"
proof (induction D get d p i r fr and D get d p r v rule: wf_frame_wf_visit.induct)
  case (1 D get d p item_id ruta q i ps vs)
  then have wf: "\<And>v. v \<in> set vs \<Longrightarrow> wf_visit D get d p ruta v" and pD: "p \<le> D" and q: "q = p"
    by simp_all
  show ?case using 1(1)[OF _ wf pD] pD q by fastforce
next
  case (2 D get d p ruta item row)
  then show ?case by (auto simp: emit_def archivo_row_of_def Let_def)
next
  case (3 D get d p ruta item row fr)
  from "3.prems" have row: "row = archivo_row_of d ruta p item" and fo: "folder item"
    and pD: "p < D" and wf: "wf_frame D get d (p + 1) (id_key item) (r_ruta row) fr"
    by auto
  from row have rp: "r_profundidad row = p" by (simp add: archivo_row_of_def Let_def)
  from "3.IH"[OF wf] rp pD show ?case
    by (fastforce simp: emit_def simp del: events_of_frame.simps)
qed

lemma traversal_returns:
  assumes fin: "\<forall>i t. items_loop get (Some (children_url d i)) [] t \<noteq> None"
  shows "listar_archivos_recursivo D get d i r p c tr \<noteq> None"
    and "procesar_items D get d r p c items tr \<noteq> None"
  using fin
proof (induction D get d i r p c tr and D get d r p c items tr
       rule: listar_archivos_recursivo_procesar_items.induct)
  case (1 D get d i r p c tr)
  show ?case
  proof (cases "D < p")
    case True
    then show ?thesis by simp
  next
    case False
    from "1.prems" have "items_loop get (Some (children_url d i)) [] (tr @ [Call p]) \<noteq> None"
      by blast
    then obtain res t1 where
      loop: "items_loop get (Some (children_url d i)) [] (tr @ [Call p]) = Some (res, t1)"
      by fastforce
    show ?thesis
    proof (cases res)
      case (Inl e)
      with loop False show ?thesis by simp
    next
      case (Inr items)
      from "1.IH"[OF False loop refl Inr "1.prems"] loop False Inr show ?thesis
        by (auto split: option.splits)
    qed
  qed
next
  case (2 D get d r p c tr)
  show ?case by simp
next
  case (3 D get d r p c item items tr)
  show ?case
  proof (cases "folder item \<and> p < D")
    case True
    from "3.IH"(1)[OF refl refl True "3.prems"] obtain t2 where
      sub: "listar_archivos_recursivo D get d (id_key item) (r_ruta (archivo_row_of d r p item)) (p + 1) c
              (if truthy c then tr @ [Append (the c) (archivo_row_of d r p item)] else tr) = Some t2"
      by blast
    from "3.IH"(2)[OF refl refl True sub "3.prems"] sub True show ?thesis
      by (auto simp: Let_def simp del: listar_archivos_recursivo.simps)
  next
    case False
    from "3.IH"(3)[OF refl refl False "3.prems"] False show ?thesis
      by (auto simp: Let_def simp del: listar_archivos_recursivo.simps)
  qed
qed

text \<open>When the listing of every node is a finite chain of pages, the traversal returns.\<close>

lemma traversal_returns_finite:
  assumes "\<forall>node. served get (children_url d node) (pages node)
                  \<and> ends get (last_url (children_url d node) (pages node))"
  shows "listar_archivos_recursivo D get d i r p c tr \<noteq> None"
proof (rule traversal_returns(1))
  show "\<forall>i t. items_loop get (Some (children_url d i)) [] t \<noteq> None"
  proof (intro allI)
    fix i t
    from assms have "served get (children_url d i) (pages i)"
      and "ends get (last_url (children_url d i) (pages i))"
      by simp_all
    from items_loop_returns[OF this children_url_nonempty, of "[]" t]
    show "items_loop get (Some (children_url d i)) [] t \<noteq> None" by auto
  qed
qed

lemma procesar_items_at_max_depth:
  "procesar_items D get d r D c items tr
     = Some (tr @ concat (map (\<lambda>item. emit c (archivo_row_of d r D item)) items))"
  by (induction items arbitrary: tr) (simp_all add: emit_def Let_def)

text \<open>
  C1. In every run of the traversal with maximum depth \<open>D\<close> that returns (any server, any
  start node, path, start depth and earlier log), every row appended has a depth field of
  at most \<open>D\<close> and no frame lists children at a depth beyond \<open>D\<close>. The children found at
  depth \<open>D\<close> are all emitted, folders included, and nothing else happens for them: no
  request and no recursive call.
\<close>

theorem C1_depth_bounded_by_max_depth:
  "(listar_archivos_recursivo D get d i r p c tr = Some tr' \<longrightarrow>
      (\<exists>es. tr' = tr @ es
         \<and> (\<forall>file row. Append file row \<in> set es \<longrightarrow> r_profundidad row \<le> D)
         \<and> (\<forall>q. Call q \<in> set es \<longrightarrow> q \<le> D)))
   \<and> procesar_items D get d r D c items tr
       = Some (tr @ concat (map (\<lambda>item. emit c (archivo_row_of d r D item)) items))"
proof (intro conjI impI)
  assume run: "listar_archivos_recursivo D get d i r p c tr = Some tr'"
  show "\<exists>es. tr' = tr @ es
         \<and> (\<forall>file row. Append file row \<in> set es \<longrightarrow> r_profundidad row \<le> D)
         \<and> (\<forall>q. Call q \<in> set es \<longrightarrow> q \<le> D)"
  proof (cases "D < p")
    case True
    with run have "tr' = tr @ []" by simp
    then show ?thesis by (intro exI[of _ "[]"]) simp
  next
    case False
    with traversal_call_tree(1)[of D get d i r p c tr] run obtain fr where
      fr: "tr' = tr @ events_of_frame d c fr" "wf_frame D get d p i r fr"
      by auto
    from rows_call_tree(1)[OF fr(2), of c] fr(1) show ?thesis
      by (intro exI[of _ "events_of_frame d c fr"]) blast
  qed
next
  show "procesar_items D get d r D c items tr
          = Some (tr @ concat (map (\<lambda>item. emit c (archivo_row_of d r D item)) items))"
    by (rule procesar_items_at_max_depth)
qed

theorem C1_depth_bounded_by_max_depth_witness:
  "listar_archivos_recursivo 1 tree_server ''d'' None ''/'' 0 (Some ''archivos.csv'') [] = Some tree_log
   \<and> list_all (\<lambda>e. case e of Append file row \<Rightarrow> r_profundidad row \<le> 1 | Call q \<Rightarrow> q \<le> 1 | _ \<Rightarrow> True)
        tree_log
   \<and> procesar_items 1 tree_server ''d'' ''/f'' 1 (Some ''archivos.csv'') [carpeta ''g''] []
       = Some [Append ''archivos.csv'' (archivo_row_of ''d'' ''/f'' 1 (carpeta ''g''))]"
  using C1_depth_bounded_by_max_depth[of 1 tree_server "''d''" None "''/''" 0 "Some ''archivos.csv''"
          "[]" tree_log "[carpeta ''g'']"]
        tree_run
  by (simp add: tree_log_def emit_def archivo_row_of_def Let_def)

text \<open>
  C9, as stated, fails: the first page of the root listing delivers \<open>a\<close> with a cursor,
  the request for the second page answers 503, so the listing did not succeed; the loop
  stops there and the row of \<open>a\<close> is written all the same.
\<close>

theorem C9_row_written_after_failed_listing:
  "bad_status second_fails ''https://next/2''
   \<and> listar_archivos_recursivo 1 second_fails ''d'' None ''/'' 0 (Some ''archivos.csv'') []
       = Some [Call 0, Get (children_url ''d'' None), Get ''https://next/2'',
               Append ''archivos.csv'' (archivo_row_of ''d'' ''/'' 0 (named ''a'')), Return]"
  by (simp add: second_fails_root second_fails_bad_status named_def entity0_def
        archivo_row_of_def rstrip_slash_def get_default_def Let_def)

text \<open>
  C9, amended. A traversal that passes the depth guard and returns has logged exactly the
  pre-order log of its call tree, appended to the earlier log. The frame makes all requests
  of its listing first: the pages the server serves from the children URL of its node, up to
  a request that ends the listing. It then handles exactly the children collected, in
  order: none when the last request raised, those of the pages before it when it answered a
  status other than 200, all of them when it answered 200 without a cursor. A child's row
  is written first; when the child is a folder above the maximum depth, the frame that
  lists this very child (by its id, under its path, one level deeper) follows right after
  the row and before the row of the next sibling; otherwise nothing follows for it.
\<close>

theorem C9_log_is_preorder_of_call_tree:
  "listar_archivos_recursivo D get d i r p c tr = Some tr' \<and> p \<le> D \<longrightarrow>
     (\<exists>fr. tr' = tr @ events_of_frame d c fr \<and> wf_frame D get d p i r fr)"
  using traversal_call_tree(1)[of D get d i r p c tr] by auto

theorem C9_log_is_preorder_of_call_tree_witness:
  "listar_archivos_recursivo 1 paged_tree_server ''d'' None ''/'' 0 (Some ''archivos.csv'') []
     = Some paged_tree_log
   \<and> paged_tree_log = events_of_frame ''d'' (Some ''archivos.csv'') paged_tree_frame
   \<and> wf_frame 1 paged_tree_server ''d'' 0 None ''/'' paged_tree_frame"
  using C9_log_is_preorder_of_call_tree[of 1 paged_tree_server "''d''" None "''/''" 0
          "Some ''archivos.csv''" "[]" paged_tree_log]
        paged_tree_run
  by (simp add: paged_tree_log_def paged_tree_frame_def emit_def listing_result_def
        paged_tree_server_def last_url_def batch_of_def page_def
        archivo_row_of_def rstrip_slash_def get_default_def carpeta_def named_def entity0_def
        Let_def children_url_def)

text \<open>
  C10. When the listing of every node of the drive is finite (\<open>pages node\<close> are its pages
  with a cursor, served one after the other, and the request after them ends the listing),
  the traversal returns, for every maximum depth, start depth, start node and earlier log.
  The frames that pass the depth guard carry depth arguments between the start depth and
  \<open>D\<close>, each nested frame one more than the frame that called it, and at no time are more
  than \<open>max 0 (D - p + 1)\<close> of them open. A call whose start depth exceeds \<open>D\<close> logs nothing:
  no request, no row.
\<close>

theorem C10_traversal_terminates:
  "(\<forall>node. served get (children_url d node) (pages node)
            \<and> ends get (last_url (children_url d node) (pages node))) \<longrightarrow>
     (\<exists>es. listar_archivos_recursivo D get d i r p c tr = Some (tr @ es)
        \<and> stack_peak 0 es \<le> nat (max 0 (D - p + 1))
        \<and> (\<forall>q. Call q \<in> set es \<longrightarrow> p \<le> q \<and> q \<le> D)
        \<and> (D < p \<longrightarrow> es = [])
        \<and> (p \<le> D \<longrightarrow> (\<exists>fr. es = events_of_frame d c fr \<and> wf_frame D get d p i r fr)))"
proof
  assume fin: "\<forall>node. served get (children_url d node) (pages node)
                 \<and> ends get (last_url (children_url d node) (pages node))"
  from traversal_returns_finite[OF fin, of D i r p c tr] obtain tr' where
    run: "listar_archivos_recursivo D get d i r p c tr = Some tr'"
    by blast
  show "\<exists>es. listar_archivos_recursivo D get d i r p c tr = Some (tr @ es)
        \<and> stack_peak 0 es \<le> nat (max 0 (D - p + 1))
        \<and> (\<forall>q. Call q \<in> set es \<longrightarrow> p \<le> q \<and> q \<le> D)
        \<and> (D < p \<longrightarrow> es = [])
        \<and> (p \<le> D \<longrightarrow> (\<exists>fr. es = events_of_frame d c fr \<and> wf_frame D get d p i r fr))"
  proof (cases "D < p")
    case True
    then show ?thesis by (intro exI[of _ "[]"]) simp
  next
    case False
    with traversal_call_tree(1)[of D get d i r p c tr] run obtain fr where
      fr: "tr' = tr @ events_of_frame d c fr" "wf_frame D get d p i r fr"
      by auto
    have peak: "stack_peak 0 (events_of_frame d c fr) \<le> nat (max 0 (D - p + 1))"
      using stack_call_tree(1)[OF fr(2), of 0 c] False by simp
    from rows_call_tree(1)[OF fr(2), of c] run fr peak False show ?thesis
      by (intro exI[of _ "events_of_frame d c fr"]) blast
  qed
qed

theorem C10_traversal_terminates_witness:
  "(\<forall>node. served paged_tree_server (children_url ''d'' node) (paged_tree_pages node)
            \<and> ends paged_tree_server (last_url (children_url ''d'' node) (paged_tree_pages node)))
   \<and> listar_archivos_recursivo 1 paged_tree_server ''d'' None ''/'' 0 (Some ''archivos.csv'') []
       = Some paged_tree_log
   \<and> stack_peak 0 paged_tree_log = 2
   \<and> listar_archivos_recursivo (- 1) paged_tree_server ''d'' None ''/'' 0 (Some ''archivos.csv'') []
       = Some []"
  using C10_traversal_terminates[of paged_tree_server "''d''" paged_tree_pages "- 1" None "''/''" 0
          "Some ''archivos.csv''" "[]"]
        paged_tree_finite paged_tree_run
  by (simp add: paged_tree_log_def)

section \<open>Properties of the URL-based resolution\<close>



















section \<open>Properties of the drive resolution\<close>

lemma agregar_shared_append:
  "\<exists>new. agregar_shared drives us = drives @ new
     \<and> (\<forall>d \<in> set new. type_tag d = Some ''shared'')
     \<and> set (map id_key new) = set (map id_key us) - set (map id_key drives)
     \<and> distinct (map id_key new)"
proof (induction us arbitrary: drives)
  case Nil
  show ?case by simp
next
  case (Cons u us)
  show ?case
  proof (cases "id_key u \<in> set (map id_key drives)")
    case True
    with Cons.IH[of drives] show ?thesis by auto
  next
    case False
    let ?u = "u\<lparr>type_tag := Some ''shared''\<rparr>"
    from Cons.IH[of "drives @ [?u]"] obtain new where
      new: "agregar_shared (drives @ [?u]) us = (drives @ [?u]) @ new"
        "\<forall>d \<in> set new. type_tag d = Some ''shared''"
        "set (map id_key new) = set (map id_key us) - set (map id_key (drives @ [?u]))"
        "distinct (map id_key new)"
      by blast
    show ?thesis
      using new False by (intro exI[of _ "?u # new"]) auto
  qed
qed

lemma agregar_drives_append:
  "\<exists>new. agregar_drives user_name available us = available @ new
     \<and> (\<forall>d \<in> set new. ad_type d = ''shared'')
     \<and> set (map ad_id new) = set (map id_key us) - set (map ad_id available)
     \<and> distinct (map ad_id new)"
proof (induction us arbitrary: available)
  case Nil
  show ?case by simp
next
  case (Cons u us)
  show ?case
  proof (cases "\<exists>d \<in> set available. ad_id d = id_key u")
    case True
    then have "id_key u \<in> set (map ad_id available)" by force
    with True Cons.IH[of available] show ?thesis by auto
  next
    case False
    let ?u = "\<lparr>ad_id = id_key u, ad_name = get_default (name u) ''Drive'',
               ad_type = ''shared'', ad_owner = user_name,
               ad_quota = get_default (quota_key u) []\<rparr>"
    from False have notin: "id_key u \<notin> set (map ad_id available)" by force
    from Cons.IH[of "available @ [?u]"] obtain new where
      new: "agregar_drives user_name (available @ [?u]) us = (available @ [?u]) @ new"
        "\<forall>d \<in> set new. ad_type d = ''shared''"
        "set (map ad_id new) = set (map id_key us) - set (map ad_id (available @ [?u]))"
        "distinct (map ad_id new)"
      by blast
    show ?thesis
      using new False notin by (intro exI[of _ "?u # new"]) auto
  qed
qed

lemma select_drive_available:
  "e_available_drives (snd (select_drive entrada s)) = e_available_drives s"
  by (simp add: select_drive_def Let_def split: option.splits)

lemma obtener_dedup:
  assumes "get (user_drive_url (fmt user_id)) = Response 200 drive"
    and "get (user_drives_url (fmt user_id) @ ''?$top=200'') = Response 200 data"
  shows "\<exists>others. fst (obtener_todos_los_drives_usuario get user_id tr)
                    = (obj drive)\<lparr>type_tag := Some ''personal''\<rparr> # others
           \<and> (\<forall>d \<in> set others. type_tag d = Some ''shared'')
           \<and> distinct (map id_key ((obj drive) # others))
           \<and> set (map id_key ((obj drive) # others))
               = insert (id_key (obj drive)) (set (map id_key (batch_of data)))"
proof -
  let ?p = "(obj drive)\<lparr>type_tag := Some ''personal''\<rparr>"
  from agregar_shared_append[of "[?p]" "batch_of data"] obtain new where
    new: "agregar_shared [?p] (batch_of data) = [?p] @ new"
      "\<forall>d \<in> set new. type_tag d = Some ''shared''"
      "set (map id_key new) = set (map id_key (batch_of data)) - set (map id_key [?p])"
      "distinct (map id_key new)"
    by blast
  have "fst (obtener_todos_los_drives_usuario get user_id tr) = ?p # new"
    using assms new(1) by (simp add: obtener_todos_los_drives_usuario_def Let_def)
  then show ?thesis using new(2,3,4) by (intro exI[of _ new]) auto
qed

lemma get_user_drives_dedup:
  assumes "get (user_drive_url user_id) = Response 200 drive"
    and "get (user_drives_url user_id) = Response 200 data"
  shows "\<exists>p others. e_available_drives (snd (get_user_drives get entrada user_id user_name s))
                    = p # others
           \<and> ad_id p = id_key (obj drive) \<and> ad_type p = ''personal''
           \<and> (\<forall>d \<in> set others. ad_type d = ''shared'')
           \<and> distinct (map ad_id (p # others))
           \<and> set (map ad_id (p # others))
               = insert (id_key (obj drive)) (set (map id_key (batch_of data)))"
proof -
  let ?p = "\<lparr>ad_id = id_key (obj drive), ad_name = user_name @ '' - OneDrive Personal'',
             ad_type = ''personal'', ad_owner = user_name,
             ad_quota = get_default (quota_key (obj drive)) []\<rparr>"
  from agregar_drives_append[of user_name "[?p]" "batch_of data"] obtain new where
    new: "agregar_drives user_name [?p] (batch_of data) = [?p] @ new"
      "\<forall>d \<in> set new. ad_type d = ''shared''"
      "set (map ad_id new) = set (map id_key (batch_of data)) - set (map ad_id [?p])"
      "distinct (map ad_id new)"
    by blast
  have "e_available_drives (snd (get_user_drives get entrada user_id user_name s)) = ?p # new"
    using assms new(1)
    by (simp add: get_user_drives_def Let_def requested_def select_drive_available)
  then show ?thesis using new(2,3,4) by (intro exI[of _ ?p] exI[of _ new]) auto
qed

lemma sites_loop_log: "\<exists>rest. snd (sites_loop get sites drives tr) = tr @ rest"
proof (induction sites arbitrary: drives tr)
  case Nil
  show ?case by simp
next
  case (Cons site sites)
  show ?case
    using Cons[of _ "tr @ [Get (site_drives_url (id_key site))]"]
    by (auto simp: Let_def split: response.splits)
qed

lemma search_log:
  "\<exists>rest. snd (search_all_drives_by_email get email tr) = tr @ Get (search_url email) # rest"
  using sites_loop_log[of get _ "[]" "tr @ [Get (search_url email)]"]
  by (auto simp: search_all_drives_by_email_def split: response.splits)

lemma select_drive_log: "e_log (snd (select_drive entrada s)) = e_log s"
  by (simp add: select_drive_def Let_def split: option.splits)

lemma metodo_2_result:
  assumes "search_all_drives_by_email get email (e_log s) = (drives, tr)"
  shows "e_log (snd (metodo_2 get entrada email s)) = tr"
    and "drives \<noteq> [] \<Longrightarrow>
         e_available_drives (snd (metodo_2 get entrada email s)) = map (huerfano email) drives"
    and "drives = [] \<Longrightarrow> metodo_2 get entrada email s = (False, s\<lparr>e_log := tr\<rparr>)"
    and "\<not> fst (metodo_2 get entrada email s) \<Longrightarrow> drives = [] \<or> length drives > 1"
proof -
  let ?s3 = "s\<lparr>e_log := tr, e_available_drives := map (huerfano email) drives\<rparr>"
  have sel: "e_log (snd (select_drive entrada ?s3)) = tr"
    "e_available_drives (snd (select_drive entrada ?s3)) = map (huerfano email) drives"
    by (simp_all add: select_drive_log select_drive_available)
  obtain r s' where r: "select_drive entrada ?s3 = (r, s')" by (cases "select_drive entrada ?s3")
  with sel have s': "e_log s' = tr" "e_available_drives s' = map (huerfano email) drives" by simp_all
  show "e_log (snd (metodo_2 get entrada email s)) = tr"
    using assms r s' by (auto simp: metodo_2_def Let_def split: sum.splits)
  show "drives \<noteq> [] \<Longrightarrow>
         e_available_drives (snd (metodo_2 get entrada email s)) = map (huerfano email) drives"
    using assms r s' by (auto simp: metodo_2_def Let_def split: sum.splits)
  show "drives = [] \<Longrightarrow> metodo_2 get entrada email s = (False, s\<lparr>e_log := tr\<rparr>)"
    using assms by (simp add: metodo_2_def)
  show "\<not> fst (metodo_2 get entrada email s) \<Longrightarrow> drives = [] \<or> length drives > 1"
    using assms by (cases drives; cases "tl drives") (auto simp: metodo_2_def Let_def)
qed

lemma no_identity_falls_back:
  assumes "email_of_url url = Inr email"
    and "(\<exists>data. get (users_lookup_url email) = Response 200 data \<and> batch_of data = [])
         \<or> (\<exists>st data. get (users_lookup_url email) = Response st data \<and> st \<noteq> 200)"
  shows "get_drives_from_url get entrada url s
           = metodo_2 get entrada email (requested (users_lookup_url email) s)"
  using assms by (auto simp: get_drives_from_url_def Let_def)

lemma select_drive_keeps:
  "select_drive entrada s = (r, s') \<Longrightarrow>
   e_log s' = e_log s \<and> e_available_drives s' = e_available_drives s"
  using select_drive_log[of entrada s] select_drive_available[of entrada s] by simp

lemma get_user_drives_outcome:
  assumes "get_user_drives get entrada uid un s = (r, s')"
  shows "e_log s' = e_log s @ [Get (user_drive_url uid), Get (user_drives_url uid)]"
    and "r \<noteq> Inr True \<Longrightarrow> e_available_drives s' = [] \<or> length (e_available_drives s') > 1"
proof -
  define s2 where "s2 =
    (let s = s\<lparr>e_available_drives := []\<rparr>;
         s = requested (user_drive_url uid) s;
         s = (case get (user_drive_url uid) of
                 Raises \<Rightarrow> s
               | Response status_code drive \<Rightarrow>
                   if status_code = 200 then
                     s\<lparr>e_available_drives := e_available_drives s @
                          [\<lparr>ad_id = id_key (obj drive),
                            ad_name = un @ '' - OneDrive Personal'',
                            ad_type = ''personal'', ad_owner = un,
                            ad_quota = get_default (quota_key (obj drive)) []\<rparr>]\<rparr>
                   else s);
         s = requested (user_drives_url uid) s
     in (case get (user_drives_url uid) of
                 Raises \<Rightarrow> s
               | Response status_code data \<Rightarrow>
                   if status_code = 200 then
                     s\<lparr>e_available_drives :=
                          agregar_drives un (e_available_drives s) (batch_of data)\<rparr>
                   else s))"
  have log2: "e_log s2 = e_log s @ [Get (user_drive_url uid), Get (user_drives_url uid)]"
    by (simp add: s2_def Let_def requested_def split: response.splits)
  have run: "get_user_drives get entrada uid un s =
      (if length (e_available_drives s2) = 0 then (Inr False, s2)
       else if length (e_available_drives s2) = 1
         then (Inr True, s2\<lparr>e_drive_id := ad_id (e_available_drives s2 ! 0)\<rparr>)
       else select_drive entrada s2)"
    by (simp add: get_user_drives_def s2_def Let_def)
  show "e_log s' = e_log s @ [Get (user_drive_url uid), Get (user_drives_url uid)]"
    using assms log2 unfolding run by (auto split: if_splits dest: select_drive_keeps)
  show "r \<noteq> Inr True \<Longrightarrow> e_available_drives s' = [] \<or> length (e_available_drives s') > 1"
    using assms unfolding run
    by (cases "e_available_drives s2"; cases "tl (e_available_drives s2)")
       (auto split: if_splits dest: select_drive_keeps)
qed

lemma jane_email_of_url: "email_of_url jane_url = Inr jane_email"
  unfolding jane_url_def jane_email_def by code_simp

lemma url_simps:
  "users_lookup_url jane_email \<noteq> search_url jane_email"
  "users_lookup_url jane_email \<noteq> site_drives_url i"
  "search_url jane_email \<noteq> site_drives_url i"
  "users_lookup_url jane_email \<noteq> user_drive_url u"
  "users_lookup_url jane_email \<noteq> user_drives_url u"
  by (simp_all add: users_lookup_url_def search_url_def site_drives_url_def user_drive_url_def
        user_drives_url_def jane_email_def)

lemma orphan_run:
  "get_drives_from_url orphan_server (Some ''2'') jane_url explorer0
     = (True, \<lparr>e_drive_id = Some ''X2'',
               e_available_drives = [huerfano jane_email (named ''X1''), huerfano jane_email (named ''X2'')],
               e_log = [Get (users_lookup_url jane_email), Get (search_url jane_email),
                        Get (site_drives_url (Some ''S1''))]\<rparr>)"
  by (simp add: get_drives_from_url_def jane_email_of_url orphan_server_def url_simps[symmetric] url_simps
        Let_def requested_def explorer0_def page_def batch_of_def metodo_2_def
        search_all_drives_by_email_def named_def entity0_def select_drive_def huerfano_def
        strip_def is_space_def isdigit_def int_of_digits_def max_str_digits_def)

lemma forbidden_run:
  "get_drives_from_url forbidden_server (Some ''2'') jane_url explorer0
     = (True, \<lparr>e_drive_id = Some ''X2'',
               e_available_drives = [huerfano jane_email (named ''X1''), huerfano jane_email (named ''X2'')],
               e_log = [Get (users_lookup_url jane_email), Get (search_url jane_email),
                        Get (site_drives_url (Some ''S1''))]\<rparr>)"
  by (simp add: get_drives_from_url_def jane_email_of_url forbidden_server_def orphan_server_def
        url_simps[symmetric] url_simps
        Let_def requested_def explorer0_def page_def batch_of_def metodo_2_def
        search_all_drives_by_email_def named_def entity0_def select_drive_def huerfano_def
        strip_def is_space_def isdigit_def int_of_digits_def max_str_digits_def)

lemma no_drives_run:
  "get_drives_from_url no_drives_server None jane_url explorer0
     = (False, \<lparr>e_drive_id = None, e_available_drives = [],
                e_log = [Get (users_lookup_url jane_email), Get (user_drive_url ''u1''),
                         Get (user_drives_url ''u1'')]\<rparr>)"
  by (simp add: get_drives_from_url_def jane_email_of_url no_drives_server_def
        url_simps[symmetric] url_simps
        Let_def requested_def explorer0_def page_def batch_of_def get_user_drives_def
        named_def entity0_def)

lemma nothing_run:
  "get_drives_from_url nothing_server None jane_url explorer0
     = (False, \<lparr>e_drive_id = None, e_available_drives = [],
                e_log = [Get (users_lookup_url jane_email), Get (search_url jane_email)]\<rparr>)"
  by (simp add: get_drives_from_url_def jane_email_of_url nothing_server_def
        url_simps[symmetric] url_simps
        Let_def requested_def explorer0_def page_def batch_of_def metodo_2_def
        search_all_drives_by_email_def)

text \<open>
  C5. When the default-drive lookup and the full-list lookup of a principal both answer
  200, the resolved list starts with the default drive tagged \<open>personal\<close>, every other
  entry is tagged \<open>shared\<close>, no id occurs twice, and the ids are exactly those of the two
  responses. This holds for the enumerator (\<open>obtener_todos_los_drives_usuario\<close>) and for
  the explorer (\<open>get_user_drives\<close>).
\<close>

theorem C5_drives_deduplicated:
  "(get (user_drive_url (fmt user_id)) = Response 200 drive
      \<and> get (user_drives_url (fmt user_id) @ ''?$top=200'') = Response 200 data \<longrightarrow>
    (\<exists>others. fst (obtener_todos_los_drives_usuario get user_id tr)
                 = (obj drive)\<lparr>type_tag := Some ''personal''\<rparr> # others
        \<and> (\<forall>d \<in> set others. type_tag d = Some ''shared'')
        \<and> distinct (map id_key ((obj drive) # others))
        \<and> set (map id_key ((obj drive) # others))
            = insert (id_key (obj drive)) (set (map id_key (batch_of data)))))
   \<and> (get (user_drive_url uid) = Response 200 drive
        \<and> get (user_drives_url uid) = Response 200 data \<longrightarrow>
      (\<exists>p others. e_available_drives (snd (get_user_drives get entrada uid user_name s))
                    = p # others
         \<and> ad_id p = id_key (obj drive) \<and> ad_type p = ''personal''
         \<and> (\<forall>d \<in> set others. ad_type d = ''shared'')
         \<and> distinct (map ad_id (p # others))
         \<and> set (map ad_id (p # others))
             = insert (id_key (obj drive)) (set (map id_key (batch_of data)))))"
  using obtener_dedup[of get user_id drive data tr]
        get_user_drives_dedup[of get uid drive data entrada user_name s]
  by blast

lemma drives_server_responses:
  "drives_server (user_drive_url ''u1'') = Response 200 (single (named ''D1''))"
  "drives_server (user_drives_url ''u1'' @ ''?$top=200'')
     = Response 200 (page [named ''D1'', named ''D2'', named ''D2'', named ''D3''] None)"
  "drives_server (user_drives_url ''u1'')
     = Response 200 (page [named ''D1'', named ''D2'', named ''D2'', named ''D3''] None)"
  by (simp_all add: drives_server_def user_drive_url_def user_drives_url_def)

theorem C5_drives_deduplicated_witness:
  "drives_server (user_drive_url (fmt (Some ''u1''))) = Response 200 (single (named ''D1''))
   \<and> fst (obtener_todos_los_drives_usuario drives_server (Some ''u1'') [])
       = [(named ''D1'')\<lparr>type_tag := Some ''personal''\<rparr>,
          (named ''D2'')\<lparr>type_tag := Some ''shared''\<rparr>,
          (named ''D3'')\<lparr>type_tag := Some ''shared''\<rparr>]
   \<and> map (\<lambda>d. (ad_id d, ad_type d))
         (e_available_drives (snd (get_user_drives drives_server (Some ''1'') ''u1'' ''Ana'' explorer0)))
       = [(Some ''D1'', ''personal''), (Some ''D2'', ''shared''), (Some ''D3'', ''shared'')]"
  using C5_drives_deduplicated[of drives_server "Some ''u1''" "single (named ''D1'')"
          "page [named ''D1'', named ''D2'', named ''D2'', named ''D3''] None" "[]" "''u1''"
          "Some ''1''" "''Ana''" explorer0]
        drives_server_responses
  by (simp add: fmt_def obtener_todos_los_drives_usuario_def get_user_drives_def Let_def
        requested_def explorer0_def page_def single_def batch_of_def named_def entity0_def
        select_drive_def strip_def is_space_def isdigit_def int_of_digits_def max_str_digits_def)

text \<open>
  C7. When the URL encodes an email and the identity lookup either answers 200 with no
  user or answers 403, the next request is the tenant-wide site search for that email, and
  the resolution continues with the search alone. When the search returns drives, the
  available drives are exactly these, each tagged \<open>huerfano\<close> and owned by the email.
\<close>

theorem C7_fallback_to_global_search:
  "email_of_url url = Inr email
   \<and> ((\<exists>data. get (users_lookup_url email) = Response 200 data \<and> batch_of data = [])
        \<or> (\<exists>data. get (users_lookup_url email) = Response 403 data)) \<longrightarrow>
   (\<exists>drives rest.
      search_all_drives_by_email get email (e_log s @ [Get (users_lookup_url email)])
        = (drives, e_log s @ Get (users_lookup_url email) # Get (search_url email) # rest)
      \<and> e_log (snd (get_drives_from_url get entrada url s))
          = e_log s @ Get (users_lookup_url email) # Get (search_url email) # rest
      \<and> (drives \<noteq> [] \<longrightarrow>
           e_available_drives (snd (get_drives_from_url get entrada url s))
             = map (huerfano email) drives)
      \<and> (\<forall>d \<in> set (map (huerfano email) drives). ad_type d = ''huerfano'' \<and> ad_owner d = email))"
proof
  assume a: "email_of_url url = Inr email
   \<and> ((\<exists>data. get (users_lookup_url email) = Response 200 data \<and> batch_of data = [])
        \<or> (\<exists>data. get (users_lookup_url email) = Response 403 data))"
  let ?u = "users_lookup_url email"
  let ?s1 = "requested ?u s"
  have log1: "e_log ?s1 = e_log s @ [Get ?u]" by (simp add: requested_def)
  from a have "(\<exists>data. get ?u = Response 200 data \<and> batch_of data = [])
               \<or> (\<exists>st data. get ?u = Response st data \<and> st \<noteq> 200)"
    by auto
  with a have fb: "get_drives_from_url get entrada url s = metodo_2 get entrada email ?s1"
    using no_identity_falls_back[where get=get] by blast
  obtain drives tr where sr: "search_all_drives_by_email get email (e_log ?s1) = (drives, tr)"
    by (cases "search_all_drives_by_email get email (e_log ?s1)")
  from search_log[of get email "e_log ?s1"] sr obtain rest where
    tr: "tr = e_log s @ Get ?u # Get (search_url email) # rest"
    by (auto simp: log1)
  have tags: "\<forall>d \<in> set (map (huerfano email) drives). ad_type d = ''huerfano'' \<and> ad_owner d = email"
    by (simp add: huerfano_def)
  show "\<exists>drives rest.
      search_all_drives_by_email get email (e_log s @ [Get ?u])
        = (drives, e_log s @ Get ?u # Get (search_url email) # rest)
      \<and> e_log (snd (get_drives_from_url get entrada url s))
          = e_log s @ Get ?u # Get (search_url email) # rest
      \<and> (drives \<noteq> [] \<longrightarrow>
           e_available_drives (snd (get_drives_from_url get entrada url s))
             = map (huerfano email) drives)
      \<and> (\<forall>d \<in> set (map (huerfano email) drives). ad_type d = ''huerfano'' \<and> ad_owner d = email)"
    using sr tr fb tags metodo_2_result(1,2)[OF sr, of entrada] log1
    by (intro exI[of _ drives] exI[of _ rest]) simp
qed

lemma orphan_server_lookup:
  "orphan_server (users_lookup_url jane_email) = Response 200 (page [] None)"
  "forbidden_server (users_lookup_url jane_email) = Response 403 (page [] None)"
  by (simp_all add: orphan_server_def forbidden_server_def)

theorem C7_fallback_to_global_search_witness:
  "email_of_url jane_url = Inr jane_email
   \<and> orphan_server (users_lookup_url jane_email) = Response 200 (page [] None)
   \<and> forbidden_server (users_lookup_url jane_email) = Response 403 (page [] None)
   \<and> get_drives_from_url orphan_server (Some ''2'') jane_url explorer0
       = (True, \<lparr>e_drive_id = Some ''X2'',
                 e_available_drives = [huerfano jane_email (named ''X1''), huerfano jane_email (named ''X2'')],
                 e_log = [Get (users_lookup_url jane_email), Get (search_url jane_email),
                          Get (site_drives_url (Some ''S1''))]\<rparr>)
   \<and> get_drives_from_url forbidden_server (Some ''2'') jane_url explorer0
       = get_drives_from_url orphan_server (Some ''2'') jane_url explorer0"
  using C7_fallback_to_global_search[of jane_url jane_email orphan_server explorer0 "Some ''2''"]
        jane_email_of_url orphan_server_lookup orphan_run forbidden_run
  by simp

text \<open>
  C8, as stated, fails: the identity lookup finds the user \<open>u1\<close>, both drive lookups
  answer 404, and resolution reports failure after three requests, none of them the
  global search.
\<close>

theorem C8_fails_without_global_search:
  "fst (get_drives_from_url no_drives_server None jane_url explorer0) = False
   \<and> e_log (snd (get_drives_from_url no_drives_server None jane_url explorer0))
       = [Get (users_lookup_url jane_email), Get (user_drive_url ''u1''), Get (user_drives_url ''u1'')]
   \<and> Get (search_url jane_email)
       \<notin> set (e_log (snd (get_drives_from_url no_drives_server None jane_url explorer0)))"
  by (simp add: no_drives_run users_lookup_url_def search_url_def user_drive_url_def
        user_drives_url_def jane_email_def)

text \<open>
  C8, amended. Resolution of a URL reports failure only in one of these situations: the
  URL does not encode an email; the identity lookup raises; the identity lookup finds a
  user, the global search is not attempted, and the user record has no id, or the two
  drive lookups yield no drive, or they yield several (and the menu choice is rejected or
  the menu raises); the identity lookup finds no user (an empty result or a status other
  than 200), the global search is attempted right after it, and it returns no drive or
  several (and the menu choice is rejected or the menu raises).
\<close>

theorem C8_failure_cases:
  "\<not> fst (get_drives_from_url get entrada url s) \<longrightarrow>
     (\<exists>e. email_of_url url = Inl e)
     \<or> (\<exists>email. email_of_url url = Inr email
          \<and> (get (users_lookup_url email) = Raises
             \<or> (\<exists>data. get (users_lookup_url email) = Response 200 data \<and> batch_of data \<noteq> []
                  \<and> (id_key (batch_of data ! 0) = None
                        \<and> e_log (snd (get_drives_from_url get entrada url s))
                            = e_log s @ [Get (users_lookup_url email)]
                      \<or> (\<exists>user_id. id_key (batch_of data ! 0) = Some user_id
                            \<and> e_log (snd (get_drives_from_url get entrada url s))
                                = e_log s @ [Get (users_lookup_url email), Get (user_drive_url user_id),
                                             Get (user_drives_url user_id)]
                            \<and> (e_available_drives (snd (get_drives_from_url get entrada url s)) = []
                                \<or> length (e_available_drives (snd (get_drives_from_url get entrada url s))) > 1))))
             \<or> (\<exists>drives rest.
                   search_all_drives_by_email get email (e_log s @ [Get (users_lookup_url email)])
                     = (drives, e_log s @ Get (users_lookup_url email) # Get (search_url email) # rest)
                   \<and> e_log (snd (get_drives_from_url get entrada url s))
                       = e_log s @ Get (users_lookup_url email) # Get (search_url email) # rest
                   \<and> (drives = [] \<or> length drives > 1))))"
proof
  assume fail: "\<not> fst (get_drives_from_url get entrada url s)"
  let ?R = "get_drives_from_url get entrada url s"
  show "(\<exists>e. email_of_url url = Inl e)
     \<or> (\<exists>email. email_of_url url = Inr email
          \<and> (get (users_lookup_url email) = Raises
             \<or> (\<exists>data. get (users_lookup_url email) = Response 200 data \<and> batch_of data \<noteq> []
                  \<and> (id_key (batch_of data ! 0) = None
                        \<and> e_log (snd ?R) = e_log s @ [Get (users_lookup_url email)]
                      \<or> (\<exists>user_id. id_key (batch_of data ! 0) = Some user_id
                            \<and> e_log (snd ?R)
                                = e_log s @ [Get (users_lookup_url email), Get (user_drive_url user_id),
                                             Get (user_drives_url user_id)]
                            \<and> (e_available_drives (snd ?R) = []
                                \<or> length (e_available_drives (snd ?R)) > 1))))
             \<or> (\<exists>drives rest.
                   search_all_drives_by_email get email (e_log s @ [Get (users_lookup_url email)])
                     = (drives, e_log s @ Get (users_lookup_url email) # Get (search_url email) # rest)
                   \<and> e_log (snd ?R)
                       = e_log s @ Get (users_lookup_url email) # Get (search_url email) # rest
                   \<and> (drives = [] \<or> length drives > 1))))"
  proof (cases "email_of_url url")
    case (Inl e)
    then show ?thesis by blast
  next
    case (Inr email)
    let ?u = "users_lookup_url email"
    let ?s1 = "requested ?u s"
    have log1: "e_log ?s1 = e_log s @ [Get ?u]" by (simp add: requested_def)
    have fallback: "?thesis" if fb: "?R = metodo_2 get entrada email ?s1"
    proof -
      obtain drives tr where sr: "search_all_drives_by_email get email (e_log ?s1) = (drives, tr)"
        by (cases "search_all_drives_by_email get email (e_log ?s1)")
      from search_log[of get email "e_log ?s1"] sr obtain rest where
        tr: "tr = e_log s @ Get ?u # Get (search_url email) # rest"
        by (auto simp: log1)
      from metodo_2_result(1)[OF sr, of entrada] fb have "e_log (snd ?R) = tr" by simp
      moreover from metodo_2_result(4)[OF sr, of entrada] fail fb
      have "drives = [] \<or> length drives > 1" by simp
      ultimately show ?thesis using Inr sr tr log1 by auto
    qed
    show ?thesis
    proof (cases "get ?u")
      case Raises
      with Inr show ?thesis by blast
    next
      case (Response st data)
      show ?thesis
      proof (cases "st = 200 \<and> batch_of data \<noteq> []")
        case False
        then have "(\<exists>data. get ?u = Response 200 data \<and> batch_of data = [])
                   \<or> (\<exists>st data. get ?u = Response st data \<and> st \<noteq> 200)"
          using Response by auto
        from no_identity_falls_back[where get=get, OF Inr this] show ?thesis by (rule fallback)
      next
        case True
        show ?thesis
        proof (cases "id_key (batch_of data ! 0)")
          case None
          with Inr Response True have "?R = (False, ?s1)"
            by (simp add: get_drives_from_url_def Let_def)
          with Inr Response True None log1 show ?thesis by auto
        next
          case (Some user_id)
          let ?un = "get_default (displayName (batch_of data ! 0)) email"
          obtain r s' where g: "get_user_drives get entrada user_id ?un ?s1 = (r, s')"
            by (cases "get_user_drives get entrada user_id ?un ?s1")
          with Inr Response True Some have R: "?R = (case r of Inl e \<Rightarrow> (False, s') | Inr b \<Rightarrow> (b, s'))"
            by (simp add: get_drives_from_url_def Let_def)
          with fail have "r \<noteq> Inr True" and snd: "snd ?R = s'" by (auto split: sum.splits)
          from get_user_drives_outcome[OF g] this(1) log1
          have "e_log s' = e_log s @ [Get ?u, Get (user_drive_url user_id), Get (user_drives_url user_id)]"
            and "e_available_drives s' = [] \<or> length (e_available_drives s') > 1"
            by simp_all
          with Inr Response True Some snd show ?thesis by auto
        qed
      qed
    qed
  qed
qed

theorem C8_failure_cases_witness:
  "\<not> fst (get_drives_from_url nothing_server None jane_url explorer0)
   \<and> email_of_url jane_url = Inr jane_email
   \<and> e_log (snd (get_drives_from_url nothing_server None jane_url explorer0))
       = [Get (users_lookup_url jane_email), Get (search_url jane_email)]"
  using C8_failure_cases[of nothing_server None jane_url explorer0] nothing_run jane_email_of_url
  by simp

section \<open>Properties of the orchestrator\<close>

lemma auth_fails_iff:
  "auth_fails post tenant_id \<longleftrightarrow> \<not> fst (get_access_token post tenant_id self tr)"
  by (simp add: auth_fails_def get_access_token_def Let_def split: token_response.splits option.splits)

lemma main_auth_fails:
  assumes "auth_fails post tenant_id"
  shows "main post get despachar tenant_id timestamp =
     Some (0, [Create (''usuarios_'' @ timestamp @ ''.csv'') usuarios_headers,
               Create (''sites_'' @ timestamp @ ''.csv'') sites_headers,
               Create (''archivos_'' @ timestamp @ ''.csv'') archivos_headers,
               Post (token_url tenant_id)])"
  using assms
  by (auto simp: main_def generar_reporte_completo_def get_access_token_def auth_fails_def Let_def
      split: token_response.splits option.splits)

text \<open>
  C2, as stated, fails: the token endpoint answers 401, yet the run has by then created
  the three output files, and the process exits with status 0.
\<close>

theorem C2_files_created_before_authentication:
  "auth_fails denied ''t''
   \<and> main denied two_pages no_dispatch ''t'' ''20260101_000000''
       = Some (0, [Create ''usuarios_20260101_000000.csv'' usuarios_headers,
                   Create ''sites_20260101_000000.csv'' sites_headers,
                   Create ''archivos_20260101_000000.csv'' archivos_headers,
                   Post (token_url ''t'')])"
  using main_auth_fails[of denied "''t''" two_pages no_dispatch "''20260101_000000''"]
  by (simp add: auth_fails_def denied_def)

text \<open>
  C2, amended. When authentication fails, the run ends right after the token request,
  whatever the server and the dispatch would do: the three output files were created
  before the request and hold their header rows only, no enumeration request is made, no
  record is appended, and the process exits with status 0.
\<close>

theorem C2_authentication_failure_stops_run:
  "auth_fails post tenant_id \<longrightarrow>
   main post get despachar tenant_id timestamp =
     Some (0, [Create (''usuarios_'' @ timestamp @ ''.csv'') usuarios_headers,
               Create (''sites_'' @ timestamp @ ''.csv'') sites_headers,
               Create (''archivos_'' @ timestamp @ ''.csv'') archivos_headers,
               Post (token_url tenant_id)])"
  using main_auth_fails by blast

theorem C2_authentication_failure_stops_run_witness:
  "auth_fails unreachable ''t''
   \<and> main unreachable two_pages no_dispatch ''t'' ''20260101_000000''
       = Some (0, [Create ''usuarios_20260101_000000.csv'' usuarios_headers,
                   Create ''sites_20260101_000000.csv'' sites_headers,
                   Create ''archivos_20260101_000000.csv'' archivos_headers,
                   Post (token_url ''t'')])"
  using C2_authentication_failure_stops_run[of unreachable "''t''" two_pages no_dispatch
          "''20260101_000000''"]
  by (simp add: auth_fails_def unreachable_def)

end
